theory Spec2Isabelle
  imports Main
begin

text \<open>
  A model of the bin-diff sources: the class \<^verbatim>\<open>sequence_view\<close>
  (include/sequence\_view.hpp), the class \<^verbatim>\<open>patch\<close> (patch.hpp) and the diff engine
  (diff.hpp: the class \<^verbatim>\<open>diff::_diff\<close> and the function \<^verbatim>\<open>diff::diff\<close>), together with
  the recursion of the first revision of diff.hpp (class \<^verbatim>\<open>Diff\<close>). Every function
  returns \<open>error + result\<close>: \<open>Inl\<close> stands for a raised exception or for
  behaviour that C++ leaves undefined, \<open>Inr\<close> for a normal return. The constructor
  \<^verbatim>\<open>_diff::_diff\<close> is \<open>diff_rec\<close>, \<^verbatim>\<open>operator[]\<close> of a view is \<open>at\<close>, and
  \<^verbatim>\<open>size()\<close> is \<open>size_view\<close>.
\<close>

section \<open>Machine arithmetic of the C++ sources\<close>

text \<open>
  The sources compute with \<^verbatim>\<open>int32_t\<close>, \<^verbatim>\<open>uint32_t\<close> and \<^verbatim>\<open>size_t\<close> (64 bit).
  Values are modelled as \<open>int\<close> and \<open>nat\<close>; every conversion between the three types
  is written out as the reduction it performs. Signed overflow, which C++ leaves
  undefined, is an error of the model (\<open>IntOverflow\<close>), and so is every access outside
  a vector or outside the viewed sequence.
\<close>

datatype error =
    IncompatibleSequence  \<comment> \<open>combine: "Cannot combine sequences with different super sequences"\<close>
  | NonAdjacentRange      \<comment> \<open>combine: "Cannot combine sequences that do not succeed eachother"\<close>
  | NullSequence          \<comment> \<open>a read through the null view's pointer\<close>
  | SequenceOutOfRange    \<comment> \<open>a read outside the backing sequence\<close>
  | VectorOutOfRange      \<comment> \<open>\<^verbatim>\<open>std::vector::operator[]\<close> outside \<open>[0, size)\<close>\<close>
  | IntOverflow           \<comment> \<open>an \<^verbatim>\<open>int32_t\<close> result that is not representable\<close>

definition int32_ok :: "int \<Rightarrow> bool" where
  "int32_ok i = (- (2 ^ 31) \<le> i \<and> i < 2 ^ 31)"

text \<open>Conversion of an integer value to \<^verbatim>\<open>uint32_t\<close> and to \<^verbatim>\<open>size_t\<close>: modulo \<open>2^32\<close>, \<open>2^64\<close>.\<close>

definition to_uint32 :: "int \<Rightarrow> nat" where
  "to_uint32 i = nat (i mod 2 ^ 32)"

definition to_size_t :: "int \<Rightarrow> nat" where
  "to_size_t i = nat (i mod 2 ^ 64)"

text \<open>Narrowing of a \<^verbatim>\<open>size_t\<close> to \<^verbatim>\<open>int32_t\<close>: the low 32 bits, read as two's complement.\<close>

definition to_int32 :: "nat \<Rightarrow> int" where
  "to_int32 n = (let m = int n mod 2 ^ 32 in if m < 2 ^ 31 then m else m - 2 ^ 32)"

text \<open>
  C++ \<^verbatim>\<open>/\<close> and \<^verbatim>\<open>%\<close> on signed integers truncate towards zero, so the remainder has
  the sign of the dividend: \<^verbatim>\<open>-1 % 4 == -1\<close>.
\<close>

definition cpp_div :: "int \<Rightarrow> int \<Rightarrow> int" where
  "cpp_div a b = sgn a * sgn b * (\<bar>a\<bar> div \<bar>b\<bar>)"

definition cpp_mod :: "int \<Rightarrow> int \<Rightarrow> int" where
  "cpp_mod a b = sgn a * (\<bar>a\<bar> mod \<bar>b\<bar>)"

section \<open>sequence\_view (include/sequence\_view.hpp)\<close>

text \<open>
  A view holds a pointer to the backing sequence and two \<^verbatim>\<open>size_t\<close> indices. A pointer
  is null or an address together with the sequence stored there; two views share their
  backing sequence when their pointers are equal.
\<close>

datatype 'a seq_ptr = Nullptr | Ptr nat "'a list"

record 'a sequence_view =
  m_seq :: "'a seq_ptr"
  m_view_index_begin :: nat
  m_view_index_end :: nat

text \<open>The three constructors: the null view, a view of a sequence, a view of a view.\<close>

definition sequence_view_null :: "'a sequence_view" where
  "sequence_view_null = \<lparr>m_seq = Nullptr, m_view_index_begin = 0, m_view_index_end = 0\<rparr>"

definition sequence_view_of :: "'a seq_ptr \<Rightarrow> int \<Rightarrow> int \<Rightarrow> 'a sequence_view" where
  "sequence_view_of seq begin end =
     \<lparr>m_seq = seq, m_view_index_begin = to_uint32 begin, m_view_index_end = to_uint32 end\<rparr>"

definition sequence_view_sub :: "'a sequence_view \<Rightarrow> int \<Rightarrow> int \<Rightarrow> 'a sequence_view" where
  "sequence_view_sub seq begin end =
     \<lparr>m_seq = m_seq seq,
      m_view_index_begin = (m_view_index_begin seq + to_uint32 begin) mod 2 ^ 64,
      m_view_index_end = (m_view_index_begin seq + to_uint32 end) mod 2 ^ 64\<rparr>"

definition combine :: "'a sequence_view \<Rightarrow> 'a sequence_view \<Rightarrow> error + 'a sequence_view" where
  "combine this other =
     (if m_seq this \<noteq> m_seq other then Inl IncompatibleSequence
      else if m_view_index_end this \<ge> m_view_index_begin other
              \<or> m_view_index_end other \<ge> m_view_index_begin this
      then Inr (sequence_view_of (m_seq this)
                  (int (min (m_view_index_begin this) (m_view_index_begin other)))
                  (int (max (m_view_index_end this) (m_view_index_end other))))
      else Inl NonAdjacentRange)"

text \<open>\<^verbatim>\<open>operator[]\<close> takes a \<^verbatim>\<open>size_t\<close>; the engine passes \<^verbatim>\<open>int32_t\<close> expressions.\<close>

definition at :: "'a sequence_view \<Rightarrow> int \<Rightarrow> error + 'a" where
  "at seq i =
     (case m_seq seq of
        Nullptr \<Rightarrow> Inl NullSequence
      | Ptr a xs \<Rightarrow>
          (let j = (m_view_index_begin seq + to_size_t i) mod 2 ^ 64
           in if j < length xs then Inr (xs ! j) else Inl SequenceOutOfRange))"

definition index_begin :: "'a sequence_view \<Rightarrow> nat" where
  "index_begin seq = m_view_index_begin seq"

definition size_view :: "'a sequence_view \<Rightarrow> nat" where
  "size_view seq = nat ((int (m_view_index_end seq) - int (m_view_index_begin seq)) mod 2 ^ 64)"

section \<open>patch (patch.hpp)\<close>

text \<open>
  The payload is the member \<^verbatim>\<open>m_seq\<close> of patch.hpp; it has the name \<open>m_str\<close> of the
  first revision here, since \<open>m_seq\<close> is the pointer of a view.
\<close>

datatype patch_operation = Addition | Deletion

record patch =
  m_op :: patch_operation
  m_begin :: nat
  m_str :: string

text \<open>\<^verbatim>\<open>std::string(std::cbegin(seq), seq.size())\<close>: the viewed symbols, copied.\<close>

definition copy_string :: "char sequence_view \<Rightarrow> error + string" where
  "copy_string seq =
     (case m_seq seq of
        Nullptr \<Rightarrow> Inl NullSequence
      | Ptr a xs \<Rightarrow>
          if m_view_index_begin seq + size_view seq \<le> length xs
          then Inr (take (size_view seq) (drop (m_view_index_begin seq) xs))
          else Inl SequenceOutOfRange)"

definition make_addition :: "char sequence_view \<Rightarrow> error + patch" where
  "make_addition seq =
     (case copy_string seq of
        Inl e \<Rightarrow> Inl e
      | Inr str \<Rightarrow> Inr \<lparr>m_op = Addition, m_begin = index_begin seq, m_str = str\<rparr>)"

definition make_deletion :: "char sequence_view \<Rightarrow> error + patch" where
  "make_deletion seq =
     (case copy_string seq of
        Inl e \<Rightarrow> Inl e
      | Inr str \<Rightarrow> Inr \<lparr>m_op = Deletion, m_begin = index_begin seq, m_str = str\<rparr>)"

section \<open>The diff engine (diff.hpp, namespace diff, class \_diff)\<close>

subsection \<open>The rolling arrays\<close>

text \<open>
  \<^verbatim>\<open>std::vector<int32_t>\<close> indexed by an \<^verbatim>\<open>int32_t\<close> expression: the index converts to
  \<^verbatim>\<open>size_type\<close>, so a negative one becomes at least \<open>2^64 - 2^31\<close>.
\<close>

definition vec_at :: "int list \<Rightarrow> int \<Rightarrow> error + int" where
  "vec_at v i = (let j = to_size_t i in if j < length v then Inr (v ! j) else Inl VectorOutOfRange)"

definition vec_set :: "int list \<Rightarrow> int \<Rightarrow> int \<Rightarrow> error + int list" where
  "vec_set v i x =
     (let j = to_size_t i in if j < length v then Inr (v[j := x]) else Inl VectorOutOfRange)"

subsection \<open>The members of one invocation\<close>

record frame =
  lhs_seq :: "char sequence_view"
  rhs_seq :: "char sequence_view"
  lhs_size :: int
  rhs_size :: int
  max_len :: int
  x_values_len :: int

text \<open>
  The member initialisers: the sizes narrowed to \<^verbatim>\<open>int32_t\<close>, their sum, and
  \<^verbatim>\<open>2 * std::min(lhs_size, rhs_size) + 2\<close>. These are the only places where a result
  can leave the \<^verbatim>\<open>int32_t\<close> range: every later expression is bounded by them.
\<close>

definition init_frame :: "char sequence_view \<Rightarrow> char sequence_view \<Rightarrow> error + frame" where
  "init_frame lhs rhs =
     (let ls = to_int32 (size_view lhs); rs = to_int32 (size_view rhs)
      in if int32_ok (ls + rs) \<and> int32_ok (2 * min ls rs) \<and> int32_ok (2 * min ls rs + 2)
         then Inr \<lparr>lhs_seq = lhs, rhs_seq = rhs, lhs_size = ls, rhs_size = rs,
                   max_len = ls + rs, x_values_len = 2 * min ls rs + 2\<rparr>
         else Inl IntOverflow)"

subsection \<open>One diagonal\<close>

text \<open>
  The candidate x of diagonal k at depth D, from the rolling array of the search
  direction (the same statement stands in the forward and in the backward loop).
\<close>

definition choose_x :: "int list \<Rightarrow> int \<Rightarrow> int \<Rightarrow> int \<Rightarrow> error + int" where
  "choose_x best k D len =
     (if k = - D then vec_at best (cpp_mod (k + 1) len)
      else if k \<noteq> D then
        (case vec_at best (cpp_mod (k - 1) len) of
           Inl e \<Rightarrow> Inl e
         | Inr x_minus \<Rightarrow>
            (case vec_at best (cpp_mod (k + 1) len) of
               Inl e \<Rightarrow> Inl e
             | Inr x_plus \<Rightarrow> if x_minus < x_plus then Inr x_plus else Inr (x_minus + 1)))
      else
        (case vec_at best (cpp_mod (k - 1) len) of
           Inl e \<Rightarrow> Inl e
         | Inr x_minus \<Rightarrow> Inr (x_minus + 1)))"

text \<open>The two snakes: \<^verbatim>\<open>while (x < lhs_size && y < rhs_size && lhs_seq[..] == rhs_seq[..])\<close>.\<close>

function snake_forward :: "frame \<Rightarrow> int \<Rightarrow> int \<Rightarrow> error + int \<times> int" where
  "snake_forward f x y =
     (if x < lhs_size f \<and> y < rhs_size f then
        (case at (lhs_seq f) x of
           Inl e \<Rightarrow> Inl e
         | Inr a \<Rightarrow>
            (case at (rhs_seq f) y of
               Inl e \<Rightarrow> Inl e
             | Inr b \<Rightarrow> if a = b then snake_forward f (x + 1) (y + 1) else Inr (x, y)))
      else Inr (x, y))"
  by pat_completeness auto
termination
  by (relation "measure (\<lambda>(f, x, y). nat (lhs_size f - x))") auto

declare snake_forward.simps [simp del]

function snake_backward :: "frame \<Rightarrow> int \<Rightarrow> int \<Rightarrow> error + int \<times> int" where
  "snake_backward f x y =
     (if x < lhs_size f \<and> y < rhs_size f then
        (case at (lhs_seq f) (lhs_size f - x - 1) of
           Inl e \<Rightarrow> Inl e
         | Inr a \<Rightarrow>
            (case at (rhs_seq f) (rhs_size f - y - 1) of
               Inl e \<Rightarrow> Inl e
             | Inr b \<Rightarrow> if a = b then snake_backward f (x + 1) (y + 1) else Inr (x, y)))
      else Inr (x, y))"
  by pat_completeness auto
termination
  by (relation "measure (\<lambda>(f, x, y). nat (lhs_size f - x))") auto

declare snake_backward.simps [simp del]

text \<open>
  The overlap tests. The conjunction is short-circuited: the arrays are read only when
  the parity and the range of z allow it.
\<close>

definition forward_overlap :: "frame \<Rightarrow> int \<Rightarrow> int \<Rightarrow> int \<Rightarrow> int list \<Rightarrow> int list \<Rightarrow> error + bool" where
  "forward_overlap f D k z fwd bwd =
     (if cpp_mod (max_len f) 2 = 1 \<and> z \<ge> - (D - 1) \<and> z \<le> D - 1 then
        (case vec_at fwd (cpp_mod k (x_values_len f)) of
           Inl e \<Rightarrow> Inl e
         | Inr a \<Rightarrow>
            (case vec_at bwd (cpp_mod z (x_values_len f)) of
               Inl e \<Rightarrow> Inl e
             | Inr b \<Rightarrow> Inr (a + b \<ge> lhs_size f)))
      else Inr False)"

definition backward_overlap :: "frame \<Rightarrow> int \<Rightarrow> int \<Rightarrow> int \<Rightarrow> int list \<Rightarrow> int list \<Rightarrow> error + bool" where
  "backward_overlap f D k z fwd bwd =
     (if cpp_mod (max_len f) 2 = 0 \<and> z \<ge> - D \<and> z \<le> D then
        (case vec_at bwd (cpp_mod k (x_values_len f)) of
           Inl e \<Rightarrow> Inl e
         | Inr a \<Rightarrow>
            (case vec_at fwd (cpp_mod z (x_values_len f)) of
               Inl e \<Rightarrow> Inl e
             | Inr b \<Rightarrow> Inr (a + b \<ge> lhs_size f)))
      else Inr False)"

subsection \<open>The loops\<close>

text \<open>
  \<open>Middle D x y u v\<close> holds the values of D, x, y, u and v with which a loop reaches
  \<^verbatim>\<open>if (D > 1 || (x != u && y != v))\<close>. A loop over k ends with the middle it found or
  with its rolling array.
\<close>

datatype middle = Middle int int int int int

datatype scan = Found middle | Exhausted "int list"

function forward_loop :: "frame \<Rightarrow> int \<Rightarrow> int \<Rightarrow> int list \<Rightarrow> int list \<Rightarrow> error + scan" where
  "forward_loop f D k fwd bwd =
     (if k < D - 2 * max 0 (D - lhs_size f) + 1 then
        (case choose_x fwd k D (x_values_len f) of
           Inl e \<Rightarrow> Inl e
         | Inr x_initial \<Rightarrow>
            (case snake_forward f x_initial (x_initial - k) of
               Inl e \<Rightarrow> Inl e
             | Inr (x, y) \<Rightarrow>
                (case vec_set fwd (cpp_mod k (x_values_len f)) x of
                   Inl e \<Rightarrow> Inl e
                 | Inr fwd' \<Rightarrow>
                    (case forward_overlap f D k (- (k - (lhs_size f - rhs_size f))) fwd' bwd of
                       Inl e \<Rightarrow> Inl e
                     | Inr True \<Rightarrow> Inr (Found (Middle (2 * D - 1) x_initial (x_initial - k) x y))
                     | Inr False \<Rightarrow> forward_loop f D (k + 2) fwd' bwd))))
      else Inr (Exhausted fwd))"
  by pat_completeness auto
termination
  by (relation "measure (\<lambda>(f, D, k, fwd, bwd). nat (D - 2 * max 0 (D - lhs_size f) + 1 - k))") auto

declare forward_loop.simps [simp del]

function backward_loop :: "frame \<Rightarrow> int \<Rightarrow> int \<Rightarrow> int list \<Rightarrow> int list \<Rightarrow> error + scan" where
  "backward_loop f D k fwd bwd =
     (if k < D - 2 * max 0 (D - lhs_size f) + 1 then
        (case choose_x bwd k D (x_values_len f) of
           Inl e \<Rightarrow> Inl e
         | Inr x_initial \<Rightarrow>
            (case snake_backward f x_initial (x_initial - k) of
               Inl e \<Rightarrow> Inl e
             | Inr (x, y) \<Rightarrow>
                (case vec_set bwd (cpp_mod k (x_values_len f)) x of
                   Inl e \<Rightarrow> Inl e
                 | Inr bwd' \<Rightarrow>
                    (case backward_overlap f D k (- (k - (lhs_size f - rhs_size f))) fwd bwd' of
                       Inl e \<Rightarrow> Inl e
                     | Inr True \<Rightarrow>
                         Inr (Found (Middle (2 * D) (lhs_size f - x) (rhs_size f - y)
                                (lhs_size f - x_initial) (rhs_size f - (x_initial - k))))
                     | Inr False \<Rightarrow> backward_loop f D (k + 2) fwd bwd'))))
      else Inr (Exhausted bwd))"
  by pat_completeness auto
termination
  by (relation "measure (\<lambda>(f, D, k, fwd, bwd). nat (D - 2 * max 0 (D - lhs_size f) + 1 - k))") auto

declare backward_loop.simps [simp del]

text \<open>
  \<^verbatim>\<open>for (D = 0; D < (max_len / 2 + (max_len % 2 != 0)) + 1; D++)\<close>. The loop ends with the
  middle a k loop found, or runs out (the invocation then returns without a patch).
\<close>

definition depth_bound :: "frame \<Rightarrow> int" where
  "depth_bound f = (cpp_div (max_len f) 2 + (if cpp_mod (max_len f) 2 \<noteq> 0 then 1 else 0)) + 1"

function depth_loop :: "frame \<Rightarrow> int \<Rightarrow> int list \<Rightarrow> int list \<Rightarrow> error + middle option" where
  "depth_loop f D fwd bwd =
     (if D < depth_bound f then
        (case forward_loop f D (- (D - 2 * max 0 (D - rhs_size f))) fwd bwd of
           Inl e \<Rightarrow> Inl e
         | Inr (Found m) \<Rightarrow> Inr (Some m)
         | Inr (Exhausted fwd') \<Rightarrow>
            (case backward_loop f D (- (D - 2 * max 0 (D - rhs_size f))) fwd' bwd of
               Inl e \<Rightarrow> Inl e
             | Inr (Found m) \<Rightarrow> Inr (Some m)
             | Inr (Exhausted bwd') \<Rightarrow> depth_loop f (D + 1) fwd' bwd'))
      else Inr None)"
  by pat_completeness auto
termination
  by (relation "measure (\<lambda>(f, D, fwd, bwd). nat (depth_bound f - D))") auto

declare depth_loop.simps [simp del]

text \<open>The search of one invocation, from its two zero-filled arrays.\<close>

definition search :: "frame \<Rightarrow> error + middle option" where
  "search f =
     depth_loop f 0 (replicate (to_size_t (x_values_len f)) 0)
                    (replicate (to_size_t (x_values_len f)) 0)"

subsection \<open>The recursion\<close>

text \<open>
  The constructor of class \<^verbatim>\<open>_diff\<close> (diff.hpp; the member function \<^verbatim>\<open>Diff::_diff\<close> of
  the second revision has the same body). The patches are appended to the vector the
  caller passes by reference; a raised error ends the run.
\<close>

function diff_rec :: "char sequence_view \<Rightarrow> char sequence_view \<Rightarrow> patch list \<Rightarrow> error + patch list" where
  "diff_rec lhs rhs patches =
     (case init_frame lhs rhs of
        Inl e \<Rightarrow> Inl e
      | Inr f \<Rightarrow>
          if lhs_size f > 0 \<and> rhs_size f > 0 then
            (case search f of
               Inl e \<Rightarrow> Inl e
             | Inr None \<Rightarrow> Inr patches
             | Inr (Some (Middle D x y u v)) \<Rightarrow>
                 if D > 1 \<or> (x \<noteq> u \<and> y \<noteq> v) then
                   (case diff_rec (sequence_view_sub lhs 0 x) (sequence_view_sub rhs 0 y) patches of
                      Inl e \<Rightarrow> Inl e
                    | Inr patches' \<Rightarrow>
                        diff_rec (sequence_view_sub lhs u (lhs_size f))
                                 (sequence_view_sub rhs v (rhs_size f)) patches')
                 else if rhs_size f > lhs_size f then
                   diff_rec sequence_view_null (sequence_view_sub rhs (lhs_size f) (rhs_size f)) patches
                 else if rhs_size f < lhs_size f then
                   diff_rec (sequence_view_sub lhs (rhs_size f) (lhs_size f)) sequence_view_null patches
                 else Inr patches)
          else if lhs_size f > 0 then
            (case make_deletion lhs of Inl e \<Rightarrow> Inl e | Inr p \<Rightarrow> Inr (patches @ [p]))
          else if rhs_size f > 0 then
            (case make_addition rhs of Inl e \<Rightarrow> Inl e | Inr p \<Rightarrow> Inr (patches @ [p]))
          else Inr patches)"
  by pat_completeness auto

text \<open>
  \<^verbatim>\<open>diff::diff(lhs, rhs)\<close>: the two strings are viewed whole, through the pointers their
  \<^verbatim>\<open>c_str()\<close> gives (two addresses, here 1 and 2), and the vector starts empty.
\<close>

definition diff :: "string \<Rightarrow> string \<Rightarrow> error + patch list" where
  "diff lhs rhs =
     diff_rec (sequence_view_of (Ptr 1 lhs) 0 (int (length lhs)))
              (sequence_view_of (Ptr 2 rhs) 0 (int (length rhs))) []"

subsection \<open>The first revision (class Diff, returning the patches)\<close>

text \<open>
  The oldest diff.hpp of the repository holds \<^verbatim>\<open>Diff::_diff\<close> with the same search, but
  it returns its patches as a vector, concatenates those of the two halves of a split,
  and its last branch is a plain \<^verbatim>\<open>else\<close>: with both views empty it still makes an
  addition.
\<close>

function diff_rec_v1 :: "char sequence_view \<Rightarrow> char sequence_view \<Rightarrow> error + patch list" where
  "diff_rec_v1 lhs rhs =
     (case init_frame lhs rhs of
        Inl e \<Rightarrow> Inl e
      | Inr f \<Rightarrow>
          if lhs_size f > 0 \<and> rhs_size f > 0 then
            (case search f of
               Inl e \<Rightarrow> Inl e
             | Inr None \<Rightarrow> Inr []
             | Inr (Some (Middle D x y u v)) \<Rightarrow>
                 if D > 1 \<or> (x \<noteq> u \<and> y \<noteq> v) then
                   (case diff_rec_v1 (sequence_view_sub lhs 0 x) (sequence_view_sub rhs 0 y) of
                      Inl e \<Rightarrow> Inl e
                    | Inr forward_subdiff \<Rightarrow>
                       (case diff_rec_v1 (sequence_view_sub lhs u (lhs_size f))
                                         (sequence_view_sub rhs v (rhs_size f)) of
                          Inl e \<Rightarrow> Inl e
                        | Inr backward_subdiff \<Rightarrow> Inr (forward_subdiff @ backward_subdiff)))
                 else if rhs_size f > lhs_size f then
                   diff_rec_v1 sequence_view_null (sequence_view_sub rhs (lhs_size f) (rhs_size f))
                 else if rhs_size f < lhs_size f then
                   diff_rec_v1 (sequence_view_sub lhs (rhs_size f) (lhs_size f)) sequence_view_null
                 else Inr [])
          else if lhs_size f > 0 then
            (case make_deletion lhs of Inl e \<Rightarrow> Inl e | Inr p \<Rightarrow> Inr [p])
          else
            (case make_addition rhs of Inl e \<Rightarrow> Inl e | Inr p \<Rightarrow> Inr [p]))"
  by pat_completeness auto

definition diff_v1 :: "string \<Rightarrow> string \<Rightarrow> error + patch list" where
  "diff_v1 lhs rhs =
     diff_rec_v1 (sequence_view_of (Ptr 1 lhs) 0 (int (length lhs)))
                 (sequence_view_of (Ptr 2 rhs) 0 (int (length rhs)))"

section \<open>Auxiliary notions of the proofs\<close>

text \<open>The combined size of a pair of views, as an invocation sees it.\<close>

definition combined_size :: "char sequence_view \<Rightarrow> char sequence_view \<Rightarrow> nat" where
  "combined_size lhs rhs = nat (to_int32 (size_view lhs)) + nat (to_int32 (size_view rhs))"

text \<open>A frame in the general case of the engine, as the member initialisers leave it.\<close>

definition general_case :: "frame \<Rightarrow> bool" where
  "general_case f = (0 < lhs_size f \<and> 0 < rhs_size f \<and> max_len f = lhs_size f + rhs_size f
     \<and> x_values_len f = 2 * min (lhs_size f) (rhs_size f) + 2 \<and> x_values_len f < 2 ^ 31)"

text \<open>A frame whose two views show exactly the strings l and r.\<close>

definition shows_strings :: "frame \<Rightarrow> string \<Rightarrow> string \<Rightarrow> bool" where
  "shows_strings f l r =
     (lhs_size f = int (length l) \<and> rhs_size f = int (length r)
      \<and> (\<forall>i. 0 \<le> i \<and> i < lhs_size f \<longrightarrow> at (lhs_seq f) i = Inr (l ! nat i))
      \<and> (\<forall>i. 0 \<le> i \<and> i < rhs_size f \<longrightarrow> at (rhs_seq f) i = Inr (r ! nat i)))"

section \<open>Lemmas\<close>

subsection \<open>Remainders and array accesses\<close>

lemma cpp_mod_nonneg: "0 \<le> a \<Longrightarrow> a < b \<Longrightarrow> cpp_mod a b = a"
  by (cases "a = 0") (simp_all add: cpp_mod_def)

lemma cpp_mod_minus_one: "1 < b \<Longrightarrow> cpp_mod (- 1) b = - 1"
  by (simp add: cpp_mod_def)

lemma to_size_t_nonneg: "0 \<le> i \<Longrightarrow> i < 2 ^ 64 \<Longrightarrow> to_size_t i = nat i"
  by (simp add: to_size_t_def)

lemma to_size_t_minus_one: "to_size_t (- 1) = 2 ^ 64 - 1"
  by (simp add: to_size_t_def)

lemma vec_at_in_range:
  "0 \<le> i \<Longrightarrow> nat i < length v \<Longrightarrow> i < 2 ^ 64 \<Longrightarrow> vec_at v i = Inr (v ! nat i)"
  by (simp add: vec_at_def to_size_t_nonneg)

lemma vec_set_in_range:
  "0 \<le> i \<Longrightarrow> nat i < length v \<Longrightarrow> i < 2 ^ 64 \<Longrightarrow> vec_set v i x = Inr (v[nat i := x])"
  by (simp add: vec_set_def to_size_t_nonneg)

lemma vec_set_minus_one:
  "length v < 2 ^ 64 - 1 \<Longrightarrow> vec_set v (- 1) x = Inl VectorOutOfRange"
  by (simp add: vec_set_def to_size_t_minus_one)

subsection \<open>Every snake stays on its diagonal and inside the left view\<close>

lemma snake_forward_result:
  "snake_forward f x y = Inr (x', y') \<Longrightarrow> x' - y' = x - y \<and> x \<le> x' \<and> (x \<le> lhs_size f \<longrightarrow> x' \<le> lhs_size f)"
proof (induction f x y rule: snake_forward.induct)
  case (1 f x y)
  show ?case
  proof (cases "x < lhs_size f \<and> y < rhs_size f")
    case False
    with "1.prems" show ?thesis by (simp add: snake_forward.simps)
  next
    case True
    with "1.prems" obtain a b where ab: "at (lhs_seq f) x = Inr a" "at (rhs_seq f) y = Inr b"
      by (auto simp: snake_forward.simps [of f x y] split: sum.splits)
    show ?thesis
    proof (cases "a = b")
      case True
      with \<open>x < lhs_size f \<and> y < rhs_size f\<close> ab "1.prems"
      have "snake_forward f (x + 1) (y + 1) = Inr (x', y')"
        by (simp add: snake_forward.simps [of f x y])
      from "1.IH" [OF \<open>x < lhs_size f \<and> y < rhs_size f\<close> ab True this]
      show ?thesis using \<open>x < lhs_size f \<and> y < rhs_size f\<close> by auto
    next
      case False
      with \<open>x < lhs_size f \<and> y < rhs_size f\<close> ab "1.prems" show ?thesis
        by (simp add: snake_forward.simps [of f x y])
    qed
  qed
qed


lemma snake_backward_result:
  "snake_backward f x y = Inr (x', y') \<Longrightarrow> x' - y' = x - y \<and> x \<le> x' \<and> (x \<le> lhs_size f \<longrightarrow> x' \<le> lhs_size f)"
proof (induction f x y rule: snake_backward.induct)
  case (1 f x y)
  show ?case
  proof (cases "x < lhs_size f \<and> y < rhs_size f")
    case False
    with "1.prems" show ?thesis by (simp add: snake_backward.simps)
  next
    case True
    with "1.prems" obtain a b where ab: "at (lhs_seq f) (lhs_size f - x - 1) = Inr a"
        "at (rhs_seq f) (rhs_size f - y - 1) = Inr b"
      by (auto simp: snake_backward.simps [of f x y] split: sum.splits)
    show ?thesis
    proof (cases "a = b")
      case True
      with \<open>x < lhs_size f \<and> y < rhs_size f\<close> ab "1.prems"
      have "snake_backward f (x + 1) (y + 1) = Inr (x', y')"
        by (simp add: snake_backward.simps [of f x y])
      from "1.IH" [OF \<open>x < lhs_size f \<and> y < rhs_size f\<close> ab True this]
      show ?thesis using \<open>x < lhs_size f \<and> y < rhs_size f\<close> by auto
    next
      case False
      with \<open>x < lhs_size f \<and> y < rhs_size f\<close> ab "1.prems" show ?thesis
        by (simp add: snake_backward.simps [of f x y])
    qed
  qed
qed

subsection \<open>The first two depths of a search\<close>

text \<open>
  Depth 0 has the single diagonal 0 in both directions and indexes the arrays at 0 and 1.
  Depth 1 starts its forward loop on diagonal -1, reads index 0 and, after the snake,
  writes index \<open>-1 % x_values_len = -1\<close>.
\<close>

lemma general_case_len: "general_case f \<Longrightarrow> 4 \<le> x_values_len f \<and> x_values_len f < 2 ^ 31"
  by (auto simp: general_case_def)

lemma forward_loop_depth0:
  assumes f: "general_case f" and len: "length fwd = nat (x_values_len f)" and z: "fwd ! 1 = 0"
  shows "forward_loop f 0 0 fwd bwd =
    (case snake_forward f 0 0 of Inl e \<Rightarrow> Inl e | Inr (x, y) \<Rightarrow> Inr (Exhausted (fwd[0 := x])))"
proof -
  from f have l: "4 \<le> x_values_len f" "x_values_len f < 2 ^ 31" and pos: "0 < lhs_size f" "0 < rhs_size f"
    by (auto simp: general_case_def)
  have c: "choose_x fwd 0 0 (x_values_len f) = Inr 0"
    using l len z by (simp add: choose_x_def cpp_mod_nonneg vec_at_in_range)
  have s: "\<And>x. vec_set fwd (cpp_mod 0 (x_values_len f)) x = Inr (fwd[0 := x])"
    using l len by (simp add: cpp_mod_nonneg vec_set_in_range)
  have o: "\<And>z fwd'. forward_overlap f 0 0 z fwd' bwd = Inr False"
    by (auto simp: forward_overlap_def)
  have e: "\<And>fwd'. forward_loop f 0 2 fwd' bwd = Inr (Exhausted fwd')"
    using pos by (simp add: forward_loop.simps [of f 0 2])
  show ?thesis
    using pos by (simp add: forward_loop.simps [of f 0 0] c s o e split: sum.splits prod.splits)
qed


lemma backward_loop_depth0:
  assumes f: "general_case f" and len: "length bwd = nat (x_values_len f)" "length fwd = nat (x_values_len f)"
    and z: "bwd ! 1 = 0"
  shows "backward_loop f 0 0 fwd bwd =
    (case snake_backward f 0 0 of
       Inl e \<Rightarrow> Inl e
     | Inr (x, y) \<Rightarrow>
         if cpp_mod (max_len f) 2 = 0 \<and> lhs_size f = rhs_size f \<and> lhs_size f \<le> x + fwd ! 0
         then Inr (Found (Middle 0 (lhs_size f - x) (rhs_size f - y) (lhs_size f) (rhs_size f)))
         else Inr (Exhausted (bwd[0 := x])))"
proof -
  from f have l: "4 \<le> x_values_len f" "x_values_len f < 2 ^ 31" and pos: "0 < lhs_size f" "0 < rhs_size f"
    by (auto simp: general_case_def)
  have c: "choose_x bwd 0 0 (x_values_len f) = Inr 0"
    using l len z by (simp add: choose_x_def cpp_mod_nonneg vec_at_in_range)
  have s: "\<And>x. vec_set bwd (cpp_mod 0 (x_values_len f)) x = Inr (bwd[0 := x])"
    using l len by (simp add: cpp_mod_nonneg vec_set_in_range)
  have o: "\<And>x. backward_overlap f 0 0 (lhs_size f - rhs_size f) fwd (bwd[0 := x]) =
      Inr (cpp_mod (max_len f) 2 = 0 \<and> lhs_size f = rhs_size f \<and> lhs_size f \<le> x + fwd ! 0)"
    using l len by (auto simp: backward_overlap_def cpp_mod_nonneg vec_at_in_range)
  have e: "\<And>bwd'. backward_loop f 0 2 fwd bwd' = Inr (Exhausted bwd')"
    using pos by (simp add: backward_loop.simps [of f 0 2])
  show ?thesis
    using pos by (auto simp: backward_loop.simps [of f 0 0] c s o e split: sum.splits prod.splits bool.splits)
qed

lemma forward_loop_depth1:
  assumes f: "general_case f" and len: "length fwd = nat (x_values_len f)"
  shows "forward_loop f 1 (- 1) fwd bwd =
    (case snake_forward f (fwd ! 0) (fwd ! 0 + 1) of Inl e \<Rightarrow> Inl e | Inr xy \<Rightarrow> Inl VectorOutOfRange)"
proof -
  from f have l: "4 \<le> x_values_len f" "x_values_len f < 2 ^ 31" and pos: "0 < lhs_size f" "0 < rhs_size f"
    by (auto simp: general_case_def)
  have c: "choose_x fwd (- 1) 1 (x_values_len f) = Inr (fwd ! 0)"
    using l len by (simp add: choose_x_def cpp_mod_nonneg vec_at_in_range)
  have s: "\<And>x. vec_set fwd (cpp_mod (- 1) (x_values_len f)) x = Inl VectorOutOfRange"
    using l len by (simp add: cpp_mod_minus_one vec_set_minus_one)
  show ?thesis
    using pos by (simp add: forward_loop.simps [of f 1 "- 1"] c s split: sum.splits prod.splits)
qed

lemma depth_bound_general_case: "general_case f \<Longrightarrow> 2 \<le> depth_bound f"
  by (auto simp: general_case_def depth_bound_def cpp_div_def)

lemma search_unfold:
  assumes f: "general_case f"
  shows "search f =
    (case snake_forward f 0 0 of
       Inl e \<Rightarrow> Inl e
     | Inr (x1, y1) \<Rightarrow>
        (case snake_backward f 0 0 of
           Inl e \<Rightarrow> Inl e
         | Inr (x2, y2) \<Rightarrow>
             if cpp_mod (max_len f) 2 = 0 \<and> lhs_size f = rhs_size f \<and> lhs_size f \<le> x2 + x1
             then Inr (Some (Middle 0 (lhs_size f - x2) (rhs_size f - y2) (lhs_size f) (rhs_size f)))
             else (case snake_forward f x1 (x1 + 1) of
                     Inl e \<Rightarrow> Inl e
                   | Inr xy \<Rightarrow> Inl VectorOutOfRange)))"
proof -
  from f have l: "4 \<le> x_values_len f" "x_values_len f < 2 ^ 31" and pos: "0 < lhs_size f" "0 < rhs_size f"
    by (auto simp: general_case_def)
  define zeros :: "int list" where "zeros = replicate (to_size_t (x_values_len f)) 0"
  have len: "length zeros = nat (x_values_len f)" and z1: "zeros ! 1 = 0"
    using l by (simp_all add: zeros_def to_size_t_nonneg)
  have b: "0 < depth_bound f" "1 < depth_bound f"
    using depth_bound_general_case [OF f] by simp_all
  have k0: "max 0 (- rhs_size f) = 0" and k1: "max 0 (1 - rhs_size f) = 0"
    using pos by simp_all
  have d0: "depth_loop f 0 zeros zeros =
      (case forward_loop f 0 0 zeros zeros of
         Inl e \<Rightarrow> Inl e
       | Inr (Found m) \<Rightarrow> Inr (Some m)
       | Inr (Exhausted fwd') \<Rightarrow>
          (case backward_loop f 0 0 fwd' zeros of
             Inl e \<Rightarrow> Inl e
           | Inr (Found m) \<Rightarrow> Inr (Some m)
           | Inr (Exhausted bwd') \<Rightarrow> depth_loop f 1 fwd' bwd'))"
    using b by (subst depth_loop.simps) (auto simp: k0 split: sum.splits scan.splits)
  have d1: "\<And>fwd' bwd'. length fwd' = nat (x_values_len f) \<Longrightarrow> depth_loop f 1 fwd' bwd' =
      (case snake_forward f (fwd' ! 0) (fwd' ! 0 + 1) of Inl e \<Rightarrow> Inl e | Inr xy \<Rightarrow> Inl VectorOutOfRange)"
    using b by (subst depth_loop.simps) (simp add: k1 forward_loop_depth1 [OF f] split: sum.splits)
  show ?thesis
  proof (cases "snake_forward f 0 0")
    case (Inl e)
    then show ?thesis
      unfolding search_def zeros_def [symmetric]
      by (simp add: d0 forward_loop_depth0 [OF f len z1])
  next
    case (Inr xy1)
    obtain x1 y1 where xy1: "xy1 = (x1, y1)" by (cases xy1)
    have len1: "length (zeros[0 := x1]) = nat (x_values_len f)" and at0: "(zeros[0 := x1]) ! 0 = x1"
      using len l by simp_all
    show ?thesis
    proof (cases "snake_backward f 0 0")
      case (Inl e)
      with Inr xy1 show ?thesis
        unfolding search_def zeros_def [symmetric]
        by (simp add: d0 forward_loop_depth0 [OF f len z1] backward_loop_depth0 [OF f len len1 z1])
    next
      case Inr2: (Inr xy2)
      obtain x2 y2 where xy2: "xy2 = (x2, y2)" by (cases xy2)
      have len2: "length (zeros[0 := x2]) = nat (x_values_len f)"
        using len by simp
      from Inr xy1 Inr2 xy2 show ?thesis
        unfolding search_def zeros_def [symmetric]
        by (simp add: d0 forward_loop_depth0 [OF f len z1] backward_loop_depth0 [OF f len len1 z1]
            d1 [OF len1] at0)
    qed
  qed
qed


subsection \<open>Sizes of views, and the frame of an invocation\<close>

lemma to_int32_range: "- (2 ^ 31) \<le> to_int32 n \<and> to_int32 n < 2 ^ 31"
proof -
  have "0 \<le> int n mod 2 ^ 32" "int n mod 2 ^ 32 < 2 ^ 32"
    by simp_all
  then show ?thesis
    by (auto simp: to_int32_def Let_def)
qed

lemma to_int32_small: "n < 2 ^ 31 \<Longrightarrow> to_int32 n = int n"
  by (simp add: to_int32_def Let_def)

lemma size_view_sub:
  assumes "0 \<le> b" "b \<le> e" "e < 2 ^ 31"
  shows "size_view (sequence_view_sub s b e) = nat (e - b)"
proof -
  have b: "to_uint32 b = nat b" and e: "to_uint32 e = nat e"
    using assms by (simp_all add: to_uint32_def)
  have "(int ((m_view_index_begin s + nat e) mod 2 ^ 64) - int ((m_view_index_begin s + nat b) mod 2 ^ 64)) mod 2 ^ 64
      = ((int (m_view_index_begin s) + e) - (int (m_view_index_begin s) + b)) mod 2 ^ 64"
    using assms by (simp add: zmod_int mod_diff_eq)
  also have "\<dots> = e - b"
    using assms by simp
  finally show ?thesis
    by (simp add: size_view_def sequence_view_sub_def b e)
qed

lemma size_i32_sub:
  "0 \<le> b \<Longrightarrow> b \<le> e \<Longrightarrow> e < 2 ^ 31 \<Longrightarrow> to_int32 (size_view (sequence_view_sub s b e)) = e - b"
  by (simp add: size_view_sub to_int32_small)

lemma size_view_null: "size_view sequence_view_null = 0"
  by (simp add: size_view_def sequence_view_null_def)

lemma init_frame_Inr:
  assumes "init_frame lhs rhs = Inr f"
  shows "lhs_seq f = lhs" "rhs_seq f = rhs"
    "lhs_size f = to_int32 (size_view lhs)" "rhs_size f = to_int32 (size_view rhs)"
    "max_len f = lhs_size f + rhs_size f" "x_values_len f = 2 * min (lhs_size f) (rhs_size f) + 2"
    "x_values_len f < 2 ^ 31"
  using assms by (auto simp: init_frame_def Let_def int32_ok_def split: if_splits)

lemma init_frame_general_case:
  "init_frame lhs rhs = Inr f \<Longrightarrow> 0 < lhs_size f \<Longrightarrow> 0 < rhs_size f \<Longrightarrow> general_case f"
  by (auto simp: general_case_def init_frame_def Let_def int32_ok_def split: if_splits)

text \<open>What a search can return: only the depth 0 overlap of two equally long views.\<close>

lemma search_Inr:
  assumes f: "general_case f" and s: "search f = Inr r"
  shows "\<exists>n. 0 \<le> n \<and> n \<le> lhs_size f \<and> lhs_size f = rhs_size f
           \<and> r = Some (Middle 0 (lhs_size f - n) (rhs_size f - n) (lhs_size f) (rhs_size f))"
proof -
  from s obtain x1 y1 where s1: "snake_forward f 0 0 = Inr (x1, y1)"
    by (auto simp: search_unfold [OF f] split: sum.splits)
  with s obtain x2 y2 where s2: "snake_backward f 0 0 = Inr (x2, y2)"
    by (auto simp: search_unfold [OF f] split: sum.splits)
  from snake_backward_result [OF s2] f have n: "x2 = y2" "0 \<le> x2" "x2 \<le> lhs_size f"
    by (auto simp: general_case_def)
  from s s1 s2 have "lhs_size f = rhs_size f
      \<and> r = Some (Middle 0 (lhs_size f - x2) (rhs_size f - y2) (lhs_size f) (rhs_size f))"
    by (auto simp: search_unfold [OF f] split: sum.splits if_splits)
  with n show ?thesis by auto
qed

subsection \<open>The recursion is well-founded\<close>

lemma combined_size_frame: "init_frame lhs rhs = Inr f \<Longrightarrow> combined_size lhs rhs = nat (lhs_size f) + nat (rhs_size f)"
  by (simp add: combined_size_def init_frame_Inr)

lemma split_smaller:
  assumes i: "init_frame lhs rhs = Inr f" and pos: "0 < lhs_size f" "0 < rhs_size f"
    and s: "search f = Inr (Some (Middle D x y u v))"
    and c: "1 < D \<or> (x \<noteq> u \<and> y \<noteq> v)"
  shows "combined_size (sequence_view_sub lhs 0 x) (sequence_view_sub rhs 0 y) < combined_size lhs rhs"
    and "combined_size (sequence_view_sub lhs u (lhs_size f)) (sequence_view_sub rhs v (rhs_size f)) < combined_size lhs rhs"
proof -
  have e: "general_case f" using i pos by (rule init_frame_general_case)
  from search_Inr [OF e s] obtain n where n: "0 \<le> n" "n \<le> lhs_size f" "lhs_size f = rhs_size f"
      "D = 0" "x = lhs_size f - n" "y = rhs_size f - n" "u = lhs_size f" "v = rhs_size f"
    by auto
  from c n have n0: "0 < n" by auto
  have r: "lhs_size f < 2 ^ 31" "rhs_size f < 2 ^ 31"
    using to_int32_range [of "size_view lhs"] to_int32_range [of "size_view rhs"]
    by (simp_all add: init_frame_Inr [OF i])
  show "combined_size (sequence_view_sub lhs 0 x) (sequence_view_sub rhs 0 y) < combined_size lhs rhs"
    using n n0 r pos by (simp add: combined_size_frame [OF i]) (simp add: combined_size_def size_i32_sub)
  show "combined_size (sequence_view_sub lhs u (lhs_size f)) (sequence_view_sub rhs v (rhs_size f)) < combined_size lhs rhs"
    using n r pos by (simp add: combined_size_frame [OF i]) (simp add: combined_size_def size_i32_sub)
qed

lemma tail_smaller:
  assumes i: "init_frame lhs rhs = Inr f" and pos: "0 < lhs_size f" "0 < rhs_size f"
  shows "lhs_size f < rhs_size f \<Longrightarrow>
      combined_size sequence_view_null (sequence_view_sub rhs (lhs_size f) (rhs_size f)) < combined_size lhs rhs"
    and "rhs_size f < lhs_size f \<Longrightarrow>
      combined_size (sequence_view_sub lhs (rhs_size f) (lhs_size f)) sequence_view_null < combined_size lhs rhs"
proof -
  have r: "lhs_size f < 2 ^ 31" "rhs_size f < 2 ^ 31"
    using to_int32_range [of "size_view lhs"] to_int32_range [of "size_view rhs"]
    by (simp_all add: init_frame_Inr [OF i])
  show "lhs_size f < rhs_size f \<Longrightarrow>
      combined_size sequence_view_null (sequence_view_sub rhs (lhs_size f) (rhs_size f)) < combined_size lhs rhs"
    using r pos by (simp add: combined_size_frame [OF i]) (simp add: combined_size_def size_i32_sub size_view_null to_int32_small)
  show "rhs_size f < lhs_size f \<Longrightarrow>
      combined_size (sequence_view_sub lhs (rhs_size f) (lhs_size f)) sequence_view_null < combined_size lhs rhs"
    using r pos by (simp add: combined_size_frame [OF i]) (simp add: combined_size_def size_i32_sub size_view_null to_int32_small)
qed

text \<open>
  The recursion of the model is well-founded (which the definition of \<open>diff_rec\<close>
  needs). A search of the model returns a middle only when it ends before its first
  out-of-range access, that is at depth 0 (\<open>search_Inr\<close>), and there the combined size
  decreases. This says nothing about a run of the code after such an access.
\<close>

lemma diff_rec_total: "All diff_rec_dom"
proof (relation "measure (\<lambda>(lhs, rhs, patches). combined_size lhs rhs)", goal_cases)
  case 1
  show ?case by simp
next
  case (2 lhs rhs patches f m M D x y u v)
  then show ?case by (simp add: split_smaller(1))
next
  case (3 lhs rhs patches f m M D x y u v patches')
  then show ?case by (simp add: split_smaller(2))
next
  case (4 lhs rhs patches f m M D x y u v)
  then show ?case by (simp add: tail_smaller(1))
next
  case (5 lhs rhs patches f m M D x y u v)
  then show ?case by (simp add: tail_smaller(2))
qed

termination diff_rec
  by (rule diff_rec_total)

declare diff_rec.simps [simp del]

termination diff_rec_v1
proof (relation "measure (\<lambda>(lhs, rhs). combined_size lhs rhs)", goal_cases)
  case 1
  show ?case by simp
next
  case (2 lhs rhs f m M D x y u v)
  then show ?case by (simp add: split_smaller(1))
next
  case (3 lhs rhs f m M D x y u v forward_subdiff)
  then show ?case by (simp add: split_smaller(2))
next
  case (4 lhs rhs f m M D x y u v)
  then show ?case by (simp add: tail_smaller(1))
next
  case (5 lhs rhs f m M D x y u v)
  then show ?case by (simp add: tail_smaller(2))
qed

declare diff_rec_v1.simps [simp del]

subsection \<open>The snakes on views of two strings\<close>

lemma snake_forward_stop: "\<not> (x < lhs_size f \<and> y < rhs_size f) \<Longrightarrow> snake_forward f x y = Inr (x, y)"
  by (subst snake_forward.simps) auto

lemma snake_forward_step:
  "x < lhs_size f \<Longrightarrow> y < rhs_size f \<Longrightarrow> at (lhs_seq f) x = Inr a \<Longrightarrow> at (rhs_seq f) y = Inr b \<Longrightarrow>
   snake_forward f x y = (if a = b then snake_forward f (x + 1) (y + 1) else Inr (x, y))"
  by (subst snake_forward.simps) simp

lemma snake_backward_stop: "\<not> (x < lhs_size f \<and> y < rhs_size f) \<Longrightarrow> snake_backward f x y = Inr (x, y)"
  by (subst snake_backward.simps) auto

lemma snake_backward_step:
  "x < lhs_size f \<Longrightarrow> y < rhs_size f \<Longrightarrow> at (lhs_seq f) (lhs_size f - x - 1) = Inr a \<Longrightarrow>
   at (rhs_seq f) (rhs_size f - y - 1) = Inr b \<Longrightarrow>
   snake_backward f x y = (if a = b then snake_backward f (x + 1) (y + 1) else Inr (x, y))"
  by (subst snake_backward.simps) simp

lemma snake_forward_shows:
  assumes "shows_strings f l r" "0 \<le> x" "0 \<le> y"
  shows "\<exists>n. snake_forward f x y = Inr (x + int n, y + int n)
           \<and> (\<forall>i<n. l ! (nat x + i) = r ! (nat y + i))
           \<and> (x + int n < lhs_size f \<and> y + int n < rhs_size f \<longrightarrow> l ! (nat x + n) \<noteq> r ! (nat y + n))"
  using assms
proof (induction f x y rule: snake_forward.induct)
  case (1 f x y)
  show ?case
  proof (cases "x < lhs_size f \<and> y < rhs_size f")
    case False
    then have "snake_forward f x y = Inr (x + int 0, y + int 0)"
      by (simp add: snake_forward_stop)
    with False show ?thesis by (intro exI [of _ 0]) auto
  next
    case True
    with "1.prems" have ab: "at (lhs_seq f) x = Inr (l ! nat x)" "at (rhs_seq f) y = Inr (r ! nat y)"
      by (simp_all add: shows_strings_def)
    show ?thesis
    proof (cases "l ! nat x = r ! nat y")
      case False
      with True ab have "snake_forward f x y = Inr (x + int 0, y + int 0)"
        by (simp add: snake_forward_step)
      with False show ?thesis by (intro exI [of _ 0]) auto
    next
      case eq: True
      from "1.IH" [OF True ab eq] "1.prems"
      obtain n where n: "snake_forward f (x + 1) (y + 1) = Inr (x + 1 + int n, y + 1 + int n)"
          "\<forall>i<n. l ! (nat (x + 1) + i) = r ! (nat (y + 1) + i)"
          "x + 1 + int n < lhs_size f \<and> y + 1 + int n < rhs_size f \<longrightarrow>
             l ! (nat (x + 1) + n) \<noteq> r ! (nat (y + 1) + n)"
        by auto
      have s: "nat (x + 1) = Suc (nat x)" "nat (y + 1) = Suc (nat y)"
        using "1.prems" by (simp_all add: nat_add_distrib)
      have "snake_forward f x y = Inr (x + int (Suc n), y + int (Suc n))"
        using True ab eq n(1) by (simp add: snake_forward_step add.commute add.left_commute)
      moreover have "\<forall>i<Suc n. l ! (nat x + i) = r ! (nat y + i)"
      proof (intro allI impI)
        fix i assume "i < Suc n"
        show "l ! (nat x + i) = r ! (nat y + i)"
        proof (cases i)
          case 0
          with eq show ?thesis by simp
        next
          case (Suc j)
          with \<open>i < Suc n\<close> n(2) s show ?thesis by simp
        qed
      qed
      moreover have "x + int (Suc n) < lhs_size f \<and> y + int (Suc n) < rhs_size f \<longrightarrow>
          l ! (nat x + Suc n) \<noteq> r ! (nat y + Suc n)"
        using n(3) s by (simp add: add.commute add.left_commute)
      ultimately show ?thesis by blast
    qed
  qed
qed

lemma snake_backward_shows:
  assumes "shows_strings f l r" "0 \<le> x" "0 \<le> y"
  shows "\<exists>n. snake_backward f x y = Inr (x + int n, y + int n)
           \<and> (\<forall>i<n. l ! nat (lhs_size f - x - 1 - int i) = r ! nat (rhs_size f - y - 1 - int i))
           \<and> (x + int n < lhs_size f \<and> y + int n < rhs_size f \<longrightarrow>
                l ! nat (lhs_size f - x - 1 - int n) \<noteq> r ! nat (rhs_size f - y - 1 - int n))"
  using assms
proof (induction f x y rule: snake_backward.induct)
  case (1 f x y)
  show ?case
  proof (cases "x < lhs_size f \<and> y < rhs_size f")
    case False
    then have "snake_backward f x y = Inr (x + int 0, y + int 0)"
      by (simp add: snake_backward_stop)
    with False show ?thesis by (intro exI [of _ 0]) auto
  next
    case True
    with "1.prems" have ab: "at (lhs_seq f) (lhs_size f - x - 1) = Inr (l ! nat (lhs_size f - x - 1))"
        "at (rhs_seq f) (rhs_size f - y - 1) = Inr (r ! nat (rhs_size f - y - 1))"
      by (simp_all add: shows_strings_def)
    show ?thesis
    proof (cases "l ! nat (lhs_size f - x - 1) = r ! nat (rhs_size f - y - 1)")
      case False
      with True ab have "snake_backward f x y = Inr (x + int 0, y + int 0)"
        by (simp add: snake_backward_step)
      with False show ?thesis by (intro exI [of _ 0]) auto
    next
      case eq: True
      from "1.IH" [OF True ab eq] "1.prems"
      obtain n where n: "snake_backward f (x + 1) (y + 1) = Inr (x + 1 + int n, y + 1 + int n)"
          "\<forall>i<n. l ! nat (lhs_size f - (x + 1) - 1 - int i) = r ! nat (rhs_size f - (y + 1) - 1 - int i)"
          "x + 1 + int n < lhs_size f \<and> y + 1 + int n < rhs_size f \<longrightarrow>
             l ! nat (lhs_size f - (x + 1) - 1 - int n) \<noteq> r ! nat (rhs_size f - (y + 1) - 1 - int n)"
        by auto
      have "snake_backward f x y = Inr (x + int (Suc n), y + int (Suc n))"
        using True ab eq n(1) by (simp add: snake_backward_step add.commute add.left_commute)
      moreover have "\<forall>i<Suc n. l ! nat (lhs_size f - x - 1 - int i) = r ! nat (rhs_size f - y - 1 - int i)"
      proof (intro allI impI)
        fix i assume "i < Suc n"
        show "l ! nat (lhs_size f - x - 1 - int i) = r ! nat (rhs_size f - y - 1 - int i)"
        proof (cases i)
          case 0
          with eq show ?thesis by simp
        next
          case (Suc j)
          have a: "lhs_size f - x - 1 - int i = lhs_size f - (x + 1) - 1 - int j"
            and b: "rhs_size f - y - 1 - int i = rhs_size f - (y + 1) - 1 - int j"
            using Suc by simp_all
          from Suc \<open>i < Suc n\<close> have "j < n" by simp
          with n(2) show ?thesis unfolding a b by blast
        qed
      qed
      moreover have "x + int (Suc n) < lhs_size f \<and> y + int (Suc n) < rhs_size f \<longrightarrow>
          l ! nat (lhs_size f - x - 1 - int (Suc n)) \<noteq> r ! nat (rhs_size f - y - 1 - int (Suc n))"
      proof -
        have a: "lhs_size f - x - 1 - int (Suc n) = lhs_size f - (x + 1) - 1 - int n"
          and b: "rhs_size f - y - 1 - int (Suc n) = rhs_size f - (y + 1) - 1 - int n"
          and c: "x + int (Suc n) = x + 1 + int n" "y + int (Suc n) = y + 1 + int n"
          by simp_all
        from n(3) show ?thesis unfolding a b c .
      qed
      ultimately show ?thesis by blast
    qed
  qed
qed

text \<open>
  A common prefix and a common suffix that together cover two equally long strings make
  them equal.
\<close>

lemma covered_equal:
  assumes len: "length l = length r"
    and p: "\<forall>i<n1. l ! i = r ! i"
    and q: "\<forall>i<n2. l ! nat (int (length l) - 1 - int i) = r ! nat (int (length r) - 1 - int i)"
    and c: "length l \<le> n2 + n1"
  shows "l = r"
proof (rule nth_equalityI [OF len])
  fix i assume i: "i < length l"
  show "l ! i = r ! i"
  proof (cases "i < n1")
    case True
    with p show ?thesis by simp
  next
    case False
    with i c have j: "length l - 1 - i < n2" by simp
    from q [rule_format, OF j] i len show ?thesis
      by (simp add: of_nat_diff)
  qed
qed

lemma cpp_mod_double: "0 \<le> a \<Longrightarrow> cpp_mod (a + a) 2 = 0"
  by (cases "a = 0") (simp_all add: cpp_mod_def)

lemma search_same:
  assumes f: "general_case f" and r: "shows_strings f l l"
  shows "search f = Inr (Some (Middle 0 0 0 (lhs_size f) (rhs_size f)))"
proof -
  from r have eq: "lhs_size f = rhs_size f" by (simp add: shows_strings_def)
  from f have pos: "0 < lhs_size f" and ml: "max_len f = lhs_size f + rhs_size f" by (auto simp: general_case_def)
  from snake_forward_shows [OF r, of 0 0] obtain n1 where
    n1: "snake_forward f 0 0 = Inr (int n1, int n1)"
      "int n1 < lhs_size f \<and> int n1 < rhs_size f \<longrightarrow> l ! n1 \<noteq> l ! n1"
    by auto
  from snake_backward_shows [OF r, of 0 0] obtain n2 where
    n2: "snake_backward f 0 0 = Inr (int n2, int n2)"
      "int n2 < lhs_size f \<and> int n2 < rhs_size f \<longrightarrow>
         l ! nat (lhs_size f - 0 - 1 - int n2) \<noteq> l ! nat (rhs_size f - 0 - 1 - int n2)"
    by auto
  from snake_forward_result [OF n1(1)] n1(2) eq pos have a: "int n1 = lhs_size f" by auto
  from snake_backward_result [OF n2(1)] n2(2) eq pos have b: "int n2 = lhs_size f" by auto
  have "cpp_mod (max_len f) 2 = 0"
    unfolding ml eq by (rule cpp_mod_double) (use pos eq in simp)
  then show ?thesis
    using n1(1) n2(1) a b eq pos by (simp add: search_unfold [OF f])
qed

lemma search_differ:
  assumes f: "general_case f" and r: "shows_strings f l r" and ne: "l \<noteq> r"
  shows "search f = Inl VectorOutOfRange"
proof -
  from r have L: "lhs_size f = int (length l)" and R: "rhs_size f = int (length r)"
    by (simp_all add: shows_strings_def)
  from snake_forward_shows [OF r, of 0 0] obtain n1 where
    n1: "snake_forward f 0 0 = Inr (int n1, int n1)" "\<forall>i<n1. l ! i = r ! i"
    by auto
  from snake_backward_shows [OF r, of 0 0] obtain n2 where
    n2: "snake_backward f 0 0 = Inr (int n2, int n2)"
      "\<forall>i<n2. l ! nat (lhs_size f - 0 - 1 - int i) = r ! nat (rhs_size f - 0 - 1 - int i)"
    by auto
  from snake_forward_shows [OF r, of "int n1" "int n1 + 1"] obtain xy where
    n3: "snake_forward f (int n1) (int n1 + 1) = Inr xy"
    by auto
  have "\<not> (lhs_size f = rhs_size f \<and> lhs_size f \<le> int n2 + int n1)"
  proof
    assume c: "lhs_size f = rhs_size f \<and> lhs_size f \<le> int n2 + int n1"
    with L R have len: "length l = length r" and cov: "length l \<le> n2 + n1" by simp_all
    have "l = r"
      using len n1(2) _ cov
    proof (rule covered_equal)
      show "\<forall>i<n2. l ! nat (int (length l) - 1 - int i) = r ! nat (int (length r) - 1 - int i)"
        using n2(2) L R by simp
    qed
    with ne show False by simp
  qed
  then show ?thesis
    using n1(1) n2(1) n3 by (auto simp: search_unfold [OF f])
qed

subsection \<open>The views that diff builds\<close>

lemma at_whole:
  assumes "length s < 2 ^ 32" "0 \<le> i" "i < int (length s)"
  shows "at (sequence_view_of (Ptr a s) 0 (int (length s))) i = Inr (s ! nat i)"
proof -
  have "to_size_t i = nat i"
    using assms by (simp add: to_size_t_nonneg)
  moreover have "nat i mod 2 ^ 64 = nat i"
    using assms by simp
  moreover have "nat i < length s"
    using assms by simp
  ultimately show ?thesis
    by (simp add: at_def sequence_view_of_def to_uint32_def)
qed

lemma size_view_whole:
  "length s < 2 ^ 32 \<Longrightarrow> size_view (sequence_view_of (Ptr a s) 0 (int (length s))) = length s"
  by (simp add: size_view_def sequence_view_of_def to_uint32_def)

lemma init_frame_whole:
  assumes b: "length l + length r + 2 < 2 ^ 31"
  shows "init_frame (sequence_view_of (Ptr a l) 0 (int (length l))) (sequence_view_of (Ptr b r) 0 (int (length r)))
    = Inr \<lparr>lhs_seq = sequence_view_of (Ptr a l) 0 (int (length l)),
           rhs_seq = sequence_view_of (Ptr b r) 0 (int (length r)),
           lhs_size = int (length l), rhs_size = int (length r),
           max_len = int (length l) + int (length r),
           x_values_len = 2 * min (int (length l)) (int (length r)) + 2\<rparr>"
proof -
  from b have s: "length l < 2 ^ 31" "length r < 2 ^ 31" "length l < 2 ^ 32" "length r < 2 ^ 32"
    by simp_all
  have i: "int (length l) + int (length r) + 2 < 2 ^ 31"
    using b by simp
  show ?thesis
    using s i by (simp add: init_frame_def Let_def size_view_whole to_int32_small int32_ok_def min_def)
qed

lemma whole_frame:
  assumes b: "length l + length r + 2 < 2 ^ 31" and ne: "l \<noteq> []" "r \<noteq> []"
  obtains f where
    "init_frame (sequence_view_of (Ptr a l) 0 (int (length l))) (sequence_view_of (Ptr b r) 0 (int (length r))) = Inr f"
    "general_case f" "shows_strings f l r" "lhs_size f = int (length l)" "rhs_size f = int (length r)"
proof -
  define f where "f = \<lparr>lhs_seq = sequence_view_of (Ptr a l) 0 (int (length l)),
           rhs_seq = sequence_view_of (Ptr b r) 0 (int (length r)),
           lhs_size = int (length l), rhs_size = int (length r),
           max_len = int (length l) + int (length r),
           x_values_len = 2 * min (int (length l)) (int (length r)) + 2\<rparr>"
  have i: "init_frame (sequence_view_of (Ptr a l) 0 (int (length l))) (sequence_view_of (Ptr b r) 0 (int (length r))) = Inr f"
    unfolding f_def using b by (rule init_frame_whole)
  have s: "lhs_size f = int (length l)" "rhs_size f = int (length r)"
    by (simp_all add: f_def)
  have e: "general_case f"
    using i by (rule init_frame_general_case) (use ne s in simp_all)
  from b have lt: "length l < 2 ^ 32" "length r < 2 ^ 32" by simp_all
  have "shows_strings f l r"
    unfolding shows_strings_def using lt by (simp add: f_def at_whole)
  with i e show thesis using s by (rule that)
qed

subsection \<open>The diff of two strings\<close>

lemma diff_rec_empty:
  assumes "size_view lhs = 0" "size_view rhs = 0"
  shows "diff_rec lhs rhs patches = Inr patches"
  using assms by (subst diff_rec.simps) (simp add: init_frame_def to_int32_def int32_ok_def)

lemma diff_same:
  assumes b: "2 * length s + 2 < 2 ^ 31"
  shows "diff s s = Inr []"
proof (cases "s = []")
  case True
  then show ?thesis
    by (simp add: diff_def diff_rec_empty size_view_def sequence_view_of_def to_uint32_def)
next
  case False
  from b have b': "length s + length s + 2 < 2 ^ 31" by simp
  from b' False False obtain f where f:
    "init_frame (sequence_view_of (Ptr 1 s) 0 (int (length s))) (sequence_view_of (Ptr 2 s) 0 (int (length s))) = Inr f"
    "general_case f" "shows_strings f s s" "lhs_size f = int (length s)" "rhs_size f = int (length s)"
    by (rule whole_frame)
  have m: "search f = Inr (Some (Middle 0 0 0 (lhs_size f) (rhs_size f)))"
    using f(2,3) by (rule search_same)
  have z: "\<And>v n. size_view (sequence_view_sub v n n) = 0"
    by (simp add: size_view_def sequence_view_sub_def)
  show ?thesis
    unfolding diff_def using False f(4,5)
    by (subst diff_rec.simps, subst f(1)) (simp add: m diff_rec_empty z)
qed

lemma diff_differ:
  assumes b: "length l + length r + 2 < 2 ^ 31" and ne: "l \<noteq> []" "r \<noteq> []" and d: "l \<noteq> r"
  shows "diff l r = Inl VectorOutOfRange"
proof -
  from b ne obtain f where f:
    "init_frame (sequence_view_of (Ptr 1 l) 0 (int (length l))) (sequence_view_of (Ptr 2 r) 0 (int (length r))) = Inr f"
    "general_case f" "shows_strings f l r" "lhs_size f = int (length l)" "rhs_size f = int (length r)"
    by (rule whole_frame)
  have m: "search f = Inl VectorOutOfRange"
    using f(2,3) d by (rule search_differ)
  show ?thesis
    unfolding diff_def using ne f(4,5)
    by (subst diff_rec.simps, subst f(1)) (simp add: m)
qed

subsection \<open>The depth loop\<close>

lemma depth_bound_ceiling:
  assumes "0 \<le> max_len f"
  shows "depth_bound f = (max_len f + 1) div 2 + 1"
proof -
  have "cpp_div (max_len f) 2 = max_len f div 2" "cpp_mod (max_len f) 2 = max_len f mod 2"
    using assms by (cases "max_len f = 0"; simp add: cpp_div_def cpp_mod_def)+
  then show ?thesis
    unfolding depth_bound_def by presburger
qed

subsection \<open>Payloads\<close>

lemma copy_string_length: "copy_string seq = Inr str \<Longrightarrow> length str = size_view seq"
  by (auto simp: copy_string_def split: seq_ptr.splits if_splits)

lemma to_int32_pos: "0 < to_int32 n \<Longrightarrow> n \<noteq> 0"
  by (cases "n = 0") (simp_all add: to_int32_def)

lemma make_deletion_payload:
  assumes "make_deletion seq = Inr p" "0 < to_int32 (size_view seq)"
  shows "m_str p \<noteq> []"
proof -
  from assms(1) obtain str where s: "copy_string seq = Inr str" "m_str p = str"
    by (auto simp: make_deletion_def split: sum.splits)
  from assms(2) have "size_view seq \<noteq> 0"
    by (rule to_int32_pos)
  with s copy_string_length [OF s(1)] show ?thesis by auto
qed

lemma make_addition_payload:
  assumes "make_addition seq = Inr p" "0 < to_int32 (size_view seq)"
  shows "m_str p \<noteq> []"
proof -
  from assms(1) obtain str where s: "copy_string seq = Inr str" "m_str p = str"
    by (auto simp: make_addition_def split: sum.splits)
  from assms(2) have "size_view seq \<noteq> 0"
    by (rule to_int32_pos)
  with s copy_string_length [OF s(1)] show ?thesis by auto
qed

lemma diff_rec_appends:
  "diff_rec lhs rhs ps = Inr ps' \<Longrightarrow> \<exists>qs. ps' = ps @ qs \<and> (\<forall>p\<in>set qs. m_str p \<noteq> [])"
proof (induction lhs rhs ps arbitrary: ps' rule: diff_rec.induct)
  case (1 lhs rhs patches)
  from "1.prems" obtain f where f: "init_frame lhs rhs = Inr f"
    by (subst (asm) diff_rec.simps) (auto split: sum.splits)
  note sz = init_frame_Inr(3,4) [OF f]
  show ?case
  proof (cases "0 < lhs_size f \<and> 0 < rhs_size f")
    case False
    show ?thesis
    proof (cases "0 < lhs_size f")
      case True
      with False f "1.prems" obtain p where p: "make_deletion lhs = Inr p" "ps' = patches @ [p]"
        by (subst (asm) diff_rec.simps) (auto split: sum.splits)
      from make_deletion_payload [OF p(1)] True sz p(2) show ?thesis by auto
    next
      case nl: False
      show ?thesis
      proof (cases "0 < rhs_size f")
        case True
        with nl f "1.prems" obtain p where p: "make_addition rhs = Inr p" "ps' = patches @ [p]"
          by (subst (asm) diff_rec.simps) (auto split: sum.splits)
        from make_addition_payload [OF p(1)] True sz p(2) show ?thesis by auto
      next
        case False
        with nl f "1.prems" have "ps' = patches"
          by (subst (asm) diff_rec.simps) auto
        then show ?thesis by simp
      qed
    qed
  next
    case True
    with f "1.prems" obtain m where m: "search f = Inr m"
      by (subst (asm) diff_rec.simps) (auto split: sum.splits)
    show ?thesis
    proof (cases m)
      case None
      with True f m "1.prems" have "ps' = patches"
        by (subst (asm) diff_rec.simps) auto
      then show ?thesis by simp
    next
      case (Some M)
      obtain D x y u v where M: "M = Middle D x y u v" by (cases M)
      show ?thesis
      proof (cases "1 < D \<or> (x \<noteq> u \<and> y \<noteq> v)")
        case c: True
        with True f m Some M "1.prems" obtain p1 where
          p1: "diff_rec (sequence_view_sub lhs 0 x) (sequence_view_sub rhs 0 y) patches = Inr p1"
          and p2: "diff_rec (sequence_view_sub lhs u (lhs_size f)) (sequence_view_sub rhs v (rhs_size f)) p1 = Inr ps'"
          by (subst (asm) diff_rec.simps) (auto split: sum.splits)
        from "1.IH"(1) [OF f True m Some M c p1] obtain q1 where
          q1: "p1 = patches @ q1" "\<forall>p\<in>set q1. m_str p \<noteq> []" by auto
        from "1.IH"(2) [OF f True m Some M c p1 p2] obtain q2 where
          q2: "ps' = p1 @ q2" "\<forall>p\<in>set q2. m_str p \<noteq> []" by auto
        from q1 q2 have "ps' = patches @ (q1 @ q2)" "\<forall>p\<in>set (q1 @ q2). m_str p \<noteq> []" by auto
        then show ?thesis by blast
      next
        case c: False
        show ?thesis
        proof (cases "lhs_size f < rhs_size f")
          case lt: True
          with c True f m Some M "1.prems"
          have "diff_rec sequence_view_null (sequence_view_sub rhs (lhs_size f) (rhs_size f)) patches = Inr ps'"
            by (subst (asm) diff_rec.simps) (auto split: sum.splits)
          from "1.IH"(3) [OF f True m Some M c lt this] show ?thesis .
        next
          case nlt: False
          show ?thesis
          proof (cases "rhs_size f < lhs_size f")
            case gt: True
            with nlt c True f m Some M "1.prems"
            have "diff_rec (sequence_view_sub lhs (rhs_size f) (lhs_size f)) sequence_view_null patches = Inr ps'"
              by (subst (asm) diff_rec.simps) (auto split: sum.splits)
            from "1.IH"(4) [OF f True m Some M c nlt gt this] show ?thesis .
          next
            case False
            with nlt c True f m Some M "1.prems" have "ps' = patches"
              by (subst (asm) diff_rec.simps) auto
            then show ?thesis by simp
          qed
        qed
      qed
    qed
  qed
qed

lemma diff_degenerate_current:
  "diff '''' '''' = Inr []"
  "diff '''' ''abc'' = Inr [\<lparr>m_op = Addition, m_begin = 0, m_str = ''abc''\<rparr>]"
  "diff ''abc'' '''' = Inr [\<lparr>m_op = Deletion, m_begin = 0, m_str = ''abc''\<rparr>]"
  by (simp_all add: diff_def diff_rec.simps init_frame_def sequence_view_of_def to_uint32_def size_view_def
      to_int32_def int32_ok_def make_addition_def make_deletion_def copy_string_def index_begin_def)

lemma diff_rec_v1_empty:
  assumes "size_view rhs = 0" "size_view lhs = 0"
  shows "diff_rec_v1 lhs rhs = (case make_addition rhs of Inl e \<Rightarrow> Inl e | Inr p \<Rightarrow> Inr [p])"
  using assms by (subst diff_rec_v1.simps) (simp add: init_frame_def to_int32_def int32_ok_def)

lemma diff_patches_nonempty_current:
  "diff l r = Inr ps \<Longrightarrow> p \<in> set ps \<Longrightarrow> m_str p \<noteq> []"
  unfolding diff_def by (drule diff_rec_appends) auto

subsection \<open>Evaluation\<close>

lemmas eval_defs = init_frame_def sequence_view_of_def sequence_view_sub_def sequence_view_null_def
  to_uint32_def size_view_def to_int32_def int32_ok_def make_deletion_def make_addition_def
  copy_string_def index_begin_def search_def to_size_t_def depth_bound_def cpp_div_def cpp_mod_def
  choose_x_def vec_at_def vec_set_def at_def forward_overlap_def backward_overlap_def
  snake_forward.simps snake_backward.simps forward_loop.simps backward_loop.simps depth_loop.simps

subsection \<open>All results of the current diff\<close>

text \<open>
  The current diff on every pair of strings whose sizes fit: a patch list for an empty
  side and for equal strings, the out-of-range write otherwise.
\<close>

lemma make_addition_whole:
  assumes "length s < 2 ^ 32"
  shows "make_addition (sequence_view_of (Ptr a s) 0 (int (length s))) =
      Inr \<lparr>m_op = Addition, m_begin = 0, m_str = s\<rparr>"
proof -
  have "m_seq (sequence_view_of (Ptr a s) 0 (int (length s))) = Ptr a s"
    "m_view_index_begin (sequence_view_of (Ptr a s) 0 (int (length s))) = 0"
    by (simp_all add: sequence_view_of_def to_uint32_def)
  with size_view_whole [OF assms, of a] show ?thesis
    by (simp add: make_addition_def copy_string_def index_begin_def)
qed

lemma make_deletion_whole:
  assumes "length s < 2 ^ 32"
  shows "make_deletion (sequence_view_of (Ptr a s) 0 (int (length s))) =
      Inr \<lparr>m_op = Deletion, m_begin = 0, m_str = s\<rparr>"
proof -
  have "m_seq (sequence_view_of (Ptr a s) 0 (int (length s))) = Ptr a s"
    "m_view_index_begin (sequence_view_of (Ptr a s) 0 (int (length s))) = 0"
    by (simp_all add: sequence_view_of_def to_uint32_def)
  with size_view_whole [OF assms, of a] show ?thesis
    by (simp add: make_deletion_def copy_string_def index_begin_def)
qed

lemma diff_rec_left_empty:
  assumes "size_view lhs = 0" "0 < size_view rhs" "size_view rhs < 2 ^ 31"
  shows "diff_rec lhs rhs ps = (case make_addition rhs of Inl e \<Rightarrow> Inl e | Inr p \<Rightarrow> Inr (ps @ [p]))"
  using assms
  by (subst diff_rec.simps) (simp add: init_frame_def Let_def to_int32_small int32_ok_def)

lemma diff_rec_right_empty:
  assumes "size_view rhs = 0" "0 < size_view lhs" "size_view lhs < 2 ^ 31"
  shows "diff_rec lhs rhs ps = (case make_deletion lhs of Inl e \<Rightarrow> Inl e | Inr p \<Rightarrow> Inr (ps @ [p]))"
  using assms
  by (subst diff_rec.simps) (simp add: init_frame_def Let_def to_int32_small int32_ok_def)

lemma diff_empty_left:
  assumes "r \<noteq> []" "length r < 2 ^ 31"
  shows "diff [] r = Inr [\<lparr>m_op = Addition, m_begin = 0, m_str = r\<rparr>]"
proof -
  from assms have b: "length r < 2 ^ 32" by simp
  have "diff [] r = (case make_addition (sequence_view_of (Ptr 2 r) 0 (int (length r))) of
      Inl e \<Rightarrow> Inl e | Inr p \<Rightarrow> Inr ([] @ [p]))"
    unfolding diff_def using assms
    by (intro diff_rec_left_empty) (simp_all add: size_view_whole [OF b] size_view_def sequence_view_of_def to_uint32_def)
  then show ?thesis
    by (simp add: make_addition_whole [OF b])
qed

lemma diff_empty_right:
  assumes "l \<noteq> []" "length l < 2 ^ 31"
  shows "diff l [] = Inr [\<lparr>m_op = Deletion, m_begin = 0, m_str = l\<rparr>]"
proof -
  from assms have b: "length l < 2 ^ 32" by simp
  have "diff l [] = (case make_deletion (sequence_view_of (Ptr 1 l) 0 (int (length l))) of
      Inl e \<Rightarrow> Inl e | Inr p \<Rightarrow> Inr ([] @ [p]))"
    unfolding diff_def using assms
    by (intro diff_rec_right_empty) (simp_all add: size_view_whole [OF b] size_view_def sequence_view_of_def to_uint32_def)
  then show ?thesis
    by (simp add: make_deletion_whole [OF b])
qed

lemma diff_characterisation:
  assumes "length l + length r + 2 < 2 ^ 31"
  shows "diff l r =
    (if l = [] \<and> r = [] then Inr []
     else if r = [] then Inr [\<lparr>m_op = Deletion, m_begin = 0, m_str = l\<rparr>]
     else if l = [] then Inr [\<lparr>m_op = Addition, m_begin = 0, m_str = r\<rparr>]
     else if l = r then Inr []
     else Inl VectorOutOfRange)"
proof -
  from assms have b: "length l < 2 ^ 31" "length r < 2 ^ 31" by simp_all
  consider "l = []" "r = []" | "l \<noteq> []" "r = []" | "l = []" "r \<noteq> []" | "l \<noteq> []" "r \<noteq> []" "l = r"
    | "l \<noteq> []" "r \<noteq> []" "l \<noteq> r" by blast
  then show ?thesis
  proof cases
    case 1
    then show ?thesis using diff_same [of "[]"] by simp
  next
    case 2
    then show ?thesis using diff_empty_right [OF _ b(1)] by simp
  next
    case 3
    then show ?thesis using diff_empty_left [OF _ b(2)] by simp
  next
    case 4
    with assms have "2 * length l + 2 < 2 ^ 31" by simp
    from diff_same [OF this] 4 show ?thesis by simp
  next
    case 5
    with diff_differ [OF assms] show ?thesis by simp
  qed
qed

text \<open>
  Different non-empty strings never get past depth 1: whenever diff returns a patch list,
  one of the strings is empty or the two are equal.
\<close>

lemma diff_returns_only_trivially:
  assumes "diff l r = Inr ps" "length l + length r + 2 < 2 ^ 31"
  shows "l = [] \<or> r = [] \<or> l = r"
proof (rule ccontr)
  assume "\<not> (l = [] \<or> r = [] \<or> l = r)"
  with assms(2) have "diff l r = Inl VectorOutOfRange"
    by (intro diff_differ) simp_all
  with assms(1) show False by simp
qed

subsection \<open>combine\<close>

lemma combine_incompatible_iff: "combine a b = Inl IncompatibleSequence \<longleftrightarrow> m_seq a \<noteq> m_seq b"
  by (simp add: combine_def)

lemma combine_non_adjacent_iff:
  "combine a b = Inl NonAdjacentRange \<longleftrightarrow>
     m_seq a = m_seq b \<and> m_view_index_end a < m_view_index_begin b
     \<and> m_view_index_end b < m_view_index_begin a"
  by (auto simp: combine_def)

lemma combine_reaches_no_range_error:
  assumes "m_view_index_begin a \<le> m_view_index_end a" "m_view_index_begin b \<le> m_view_index_end b"
  shows "combine a b \<noteq> Inl NonAdjacentRange"
  using assms by (auto simp: combine_def)

section \<open>The claims\<close>

subsection \<open>C1: round trip\<close>

text \<open>
  C1. For every pair of strings, applying the patches that diff returns (deletions at
  their offsets in left, additions at their offsets in right, in list order) gives right.
  The code does not get that far. The rolling arrays are indexed with
  \<^verbatim>\<open>k % x_values_len\<close>, and C++ gives a negative remainder for a negative k. At depth 1
  the forward loop starts on diagonal \<open>k = -1\<close> and writes
  \<^verbatim>\<open>best_forward_x_values[-1]\<close>. On the strings of the demonstration program the
  invocation therefore ends in an out-of-range access and returns no patch list.
\<close>

theorem diff_demo_strings_out_of_range:
  "diff ''goore wormen'' ''guur feesten'' = Inl VectorOutOfRange"
  by (rule diff_differ) simp_all

subsection \<open>C2: minimality\<close>

text \<open>
  C2. The total payload length of the returned patches is the insert and delete edit
  distance. For \<open>abc\<close> and \<open>abxc\<close> that distance is 1 (insert \<open>x\<close>); the code ends in the
  out-of-range write of C1 and C7 and returns no patch list.
\<close>

theorem diff_one_insertion_out_of_range:
  "diff ''abc'' ''abxc'' = Inl VectorOutOfRange"
  by (rule diff_differ) simp_all

subsection \<open>C3: identity\<close>

text \<open>
  C3, as amended. For every string S with \<open>2 * length S + 2 < 2^31\<close>, the diff of S
  with itself is the empty patch list: depth 0 finds the overlap, both halves of the
  split are empty, and no array is indexed below zero.
\<close>

theorem diff_identity_bounded:
  "2 * length S + 2 < 2 ^ 31 \<Longrightarrow> diff S S = Inr []"
  by (rule diff_same)

theorem diff_identity_bounded_witness:
  "2 * length ''goore wormen'' + 2 < (2::nat) ^ 31 \<and> diff ''goore wormen'' ''goore wormen'' = Inr []"
  using diff_identity_bounded [of "''goore wormen''"] by simp

text \<open>
  The bound is needed. For a string of \<open>2^30 - 1\<close> symbols the initialiser
  \<^verbatim>\<open>2 * std::min(lhs_size, rhs_size) + 2\<close> is \<open>2^31\<close>, outside \<^verbatim>\<open>int32_t\<close>.
\<close>

theorem diff_identity_overflow:
  "diff (replicate (2 ^ 30 - 1) CHR ''a'') (replicate (2 ^ 30 - 1) CHR ''a'') = Inl IntOverflow"
  by (simp add: diff_def diff_rec.simps init_frame_def sequence_view_of_def to_uint32_def size_view_def
      to_int32_def int32_ok_def)

subsection \<open>C4: disjoint sequences\<close>

text \<open>
  C4. Two non-empty sequences without a common symbol give exactly one deletion of all
  of left and one addition of all of right. The strings \<open>ab\<close> and \<open>cd\<close> share no
  symbol; the code ends in the out-of-range write of C1 and C7 and returns no patch.
\<close>

theorem diff_disjoint_out_of_range:
  "set ''ab'' \<inter> set ''cd'' = {} \<and> diff ''ab'' ''cd'' = Inl VectorOutOfRange"
proof
  show "set ''ab'' \<inter> set ''cd'' = {}" by simp
  show "diff ''ab'' ''cd'' = Inl VectorOutOfRange" by (rule diff_differ) simp_all
qed

subsection \<open>C5: degenerate inputs\<close>

text \<open>
  C5. The diff of two empty strings is the empty list; of the empty string and \<open>abc\<close>
  one addition at 0 with payload \<open>abc\<close>; of \<open>abc\<close> and the empty string one deletion at
  0 with payload \<open>abc\<close>. The current diff.hpp does so (\<open>diff_degenerate_current\<close>). The
  first revision, whose base case the claim also rests on, ends in a plain
  \<^verbatim>\<open>else\<close> and returns an addition with an empty payload for two empty strings.
\<close>

theorem diff_v1_empty_inputs:
  "diff_v1 '''' '''' = Inr [\<lparr>m_op = Addition, m_begin = 0, m_str = ''''\<rparr>]"
  by (simp add: diff_v1_def diff_rec_v1.simps init_frame_def sequence_view_of_def to_uint32_def size_view_def
      to_int32_def int32_ok_def make_addition_def copy_string_def index_begin_def)

subsection \<open>C6: combine\<close>

text \<open>
  C6. combine raises the incompatible-sequence error exactly when the two views have
  different backing sequences, the non-adjacent error exactly when the two ranges
  neither overlap nor touch, and otherwise returns the view from the smaller begin to
  the larger end. The code joins its two comparisons with "or" where overlapping or
  touching needs "and": the views \<open>[0, 1)\<close> and \<open>[5, 6)\<close> of one sequence are four
  symbols apart and are combined into \<open>[0, 6)\<close>. For views with begin at most end the
  error is never raised (\<open>combine_reaches_no_range_error\<close>).
\<close>

theorem combine_disjoint_ranges_succeeds:
  "combine (sequence_view_of (Ptr 1 ''abcdefgh'') 0 1) (sequence_view_of (Ptr 1 ''abcdefgh'') 5 6)
     = Inr (sequence_view_of (Ptr 1 ''abcdefgh'') 0 6)"
  by (simp add: combine_def sequence_view_of_def to_uint32_def)

subsection \<open>C7: the rolling arrays are indexed in range\<close>

text \<open>
  C7. Every access to the two rolling arrays uses an index in
  \<open>[0, 2 * min(L, R) + 2)\<close>. The code reduces the signed diagonal with \<^verbatim>\<open>%\<close>, which
  keeps the sign of k. For every two different non-empty strings (of sizes that fit
  \<^verbatim>\<open>int32_t\<close>) the invocation reaches depth 1, where the forward loop starts at
  \<open>k = -1\<close> and writes \<^verbatim>\<open>best_forward_x_values[-1 % x_values_len]\<close>, that is index -1.
\<close>

theorem rolling_array_write_out_of_range:
  "length l + length r + 2 < 2 ^ 31 \<Longrightarrow> l \<noteq> [] \<Longrightarrow> r \<noteq> [] \<Longrightarrow> l \<noteq> r \<Longrightarrow> diff l r = Inl VectorOutOfRange"
  by (rule diff_differ)

theorem rolling_array_write_out_of_range_witness:
  "length ''a'' + length ''b'' + 2 < (2::nat) ^ 31 \<and> ''a'' \<noteq> [] \<and> ''b'' \<noteq> [] \<and> ''a'' \<noteq> ''b''
     \<and> diff ''a'' ''b'' = Inl VectorOutOfRange"
  using rolling_array_write_out_of_range [of "''a''" "''b''"] by simp

subsection \<open>C8: termination\<close>


subsection \<open>C9: no empty payload\<close>

text \<open>
  C9. No patch that diff returns has an empty payload. The current diff.hpp keeps this
  (\<open>diff_patches_nonempty_current\<close>). The first revision, whose base case the claim also
  rests on, makes an addition whenever the left view is empty: the diff of \<open>a\<close> with
  itself splits into two pairs of empty views and returns two additions without a
  symbol.
\<close>

theorem diff_v1_zero_length_patches:
  "diff_v1 ''a'' ''a'' = Inr [\<lparr>m_op = Addition, m_begin = 0, m_str = ''''\<rparr>,
                             \<lparr>m_op = Addition, m_begin = 1, m_str = ''''\<rparr>]"
proof -
  obtain f where f:
    "init_frame (sequence_view_of (Ptr 1 ''a'') 0 (int (length ''a''))) (sequence_view_of (Ptr 2 ''a'') 0 (int (length ''a''))) = Inr f"
    "general_case f" "shows_strings f ''a'' ''a''" "lhs_size f = int (length ''a'')" "rhs_size f = int (length ''a'')"
    by (rule whole_frame [of "''a''" "''a''" 1 2]) simp_all
  have m: "search f = Inr (Some (Middle 0 0 0 (lhs_size f) (rhs_size f)))"
    using f(2,3) by (rule search_same)
  have z: "\<And>v n. size_view (sequence_view_sub v n n) = 0"
    by (simp add: size_view_def sequence_view_sub_def)
  show ?thesis
    unfolding diff_v1_def using f(4,5)
    by (subst diff_rec_v1.simps, subst f(1))
       (simp add: m diff_rec_v1_empty z make_addition_def copy_string_def index_begin_def
          sequence_view_sub_def sequence_view_of_def to_uint32_def size_view_def)
qed

subsection \<open>C10: the candidate x of a diagonal\<close>

text \<open>
  C10, as amended. Every step of the forward loop, at a diagonal k within the loop
  bound, runs its snake, its write and its overlap test from a candidate c taken from
  the forward array: on \<open>k = -D\<close> the entry of diagonal \<open>k + 1\<close>, unchanged; on \<open>k = D\<close>
  with \<open>D > 0\<close> the entry of diagonal \<open>k - 1\<close> plus one; on the diagonals between, the
  entry of \<open>k + 1\<close> when that is strictly the larger one, and the entry of \<open>k - 1\<close> plus
  one otherwise. Every step of the backward loop does the same from the backward
  array. The equations hold for every D, k and pair of arrays, so also for the arrays
  that the steps before have written. (An entry is read at
  \<^verbatim>\<open>(k \<plusminus> 1) % x_values_len\<close>; where that index is negative the read fails, see C7.)
\<close>

theorem candidate_x_rule_in_loops:
  "(k < D - 2 * max 0 (D - lhs_size f) + 1
    \<and> (k = - D \<and> vec_at fwd (cpp_mod (k + 1) (x_values_len f)) = Inr b \<and> c = b
       \<or> k = D \<and> D \<noteq> 0 \<and> vec_at fwd (cpp_mod (k - 1) (x_values_len f)) = Inr a \<and> c = a + 1
       \<or> k \<noteq> - D \<and> k \<noteq> D \<and> vec_at fwd (cpp_mod (k - 1) (x_values_len f)) = Inr a
           \<and> vec_at fwd (cpp_mod (k + 1) (x_values_len f)) = Inr b
           \<and> c = (if a < b then b else a + 1)) \<longrightarrow>
    forward_loop f D k fwd bwd =
      (case snake_forward f c (c - k) of
         Inl e \<Rightarrow> Inl e
       | Inr (x, y) \<Rightarrow>
          (case vec_set fwd (cpp_mod k (x_values_len f)) x of
             Inl e \<Rightarrow> Inl e
           | Inr fwd' \<Rightarrow>
              (case forward_overlap f D k (- (k - (lhs_size f - rhs_size f))) fwd' bwd of
                 Inl e \<Rightarrow> Inl e
               | Inr True \<Rightarrow> Inr (Found (Middle (2 * D - 1) c (c - k) x y))
               | Inr False \<Rightarrow> forward_loop f D (k + 2) fwd' bwd))))
   \<and> (k < D - 2 * max 0 (D - lhs_size f) + 1
    \<and> (k = - D \<and> vec_at bwd (cpp_mod (k + 1) (x_values_len f)) = Inr b \<and> c = b
       \<or> k = D \<and> D \<noteq> 0 \<and> vec_at bwd (cpp_mod (k - 1) (x_values_len f)) = Inr a \<and> c = a + 1
       \<or> k \<noteq> - D \<and> k \<noteq> D \<and> vec_at bwd (cpp_mod (k - 1) (x_values_len f)) = Inr a
           \<and> vec_at bwd (cpp_mod (k + 1) (x_values_len f)) = Inr b
           \<and> c = (if a < b then b else a + 1)) \<longrightarrow>
    backward_loop f D k fwd bwd =
      (case snake_backward f c (c - k) of
         Inl e \<Rightarrow> Inl e
       | Inr (x, y) \<Rightarrow>
          (case vec_set bwd (cpp_mod k (x_values_len f)) x of
             Inl e \<Rightarrow> Inl e
           | Inr bwd' \<Rightarrow>
              (case backward_overlap f D k (- (k - (lhs_size f - rhs_size f))) fwd bwd' of
                 Inl e \<Rightarrow> Inl e
               | Inr True \<Rightarrow>
                   Inr (Found (Middle (2 * D) (lhs_size f - x) (rhs_size f - y)
                          (lhs_size f - c) (rhs_size f - (c - k))))
               | Inr False \<Rightarrow> backward_loop f D (k + 2) fwd bwd'))))"
proof (intro conjI impI)
  assume h: "k < D - 2 * max 0 (D - lhs_size f) + 1
    \<and> (k = - D \<and> vec_at fwd (cpp_mod (k + 1) (x_values_len f)) = Inr b \<and> c = b
       \<or> k = D \<and> D \<noteq> 0 \<and> vec_at fwd (cpp_mod (k - 1) (x_values_len f)) = Inr a \<and> c = a + 1
       \<or> k \<noteq> - D \<and> k \<noteq> D \<and> vec_at fwd (cpp_mod (k - 1) (x_values_len f)) = Inr a
           \<and> vec_at fwd (cpp_mod (k + 1) (x_values_len f)) = Inr b
           \<and> c = (if a < b then b else a + 1))"
  then have "choose_x fwd k D (x_values_len f) = Inr c"
    by (auto simp: choose_x_def)
  with h show "forward_loop f D k fwd bwd =
      (case snake_forward f c (c - k) of
         Inl e \<Rightarrow> Inl e
       | Inr (x, y) \<Rightarrow>
          (case vec_set fwd (cpp_mod k (x_values_len f)) x of
             Inl e \<Rightarrow> Inl e
           | Inr fwd' \<Rightarrow>
              (case forward_overlap f D k (- (k - (lhs_size f - rhs_size f))) fwd' bwd of
                 Inl e \<Rightarrow> Inl e
               | Inr True \<Rightarrow> Inr (Found (Middle (2 * D - 1) c (c - k) x y))
               | Inr False \<Rightarrow> forward_loop f D (k + 2) fwd' bwd)))"
    by (subst forward_loop.simps) simp
next
  assume h: "k < D - 2 * max 0 (D - lhs_size f) + 1
    \<and> (k = - D \<and> vec_at bwd (cpp_mod (k + 1) (x_values_len f)) = Inr b \<and> c = b
       \<or> k = D \<and> D \<noteq> 0 \<and> vec_at bwd (cpp_mod (k - 1) (x_values_len f)) = Inr a \<and> c = a + 1
       \<or> k \<noteq> - D \<and> k \<noteq> D \<and> vec_at bwd (cpp_mod (k - 1) (x_values_len f)) = Inr a
           \<and> vec_at bwd (cpp_mod (k + 1) (x_values_len f)) = Inr b
           \<and> c = (if a < b then b else a + 1))"
  then have "choose_x bwd k D (x_values_len f) = Inr c"
    by (auto simp: choose_x_def)
  with h show "backward_loop f D k fwd bwd =
      (case snake_backward f c (c - k) of
         Inl e \<Rightarrow> Inl e
       | Inr (x, y) \<Rightarrow>
          (case vec_set bwd (cpp_mod k (x_values_len f)) x of
             Inl e \<Rightarrow> Inl e
           | Inr bwd' \<Rightarrow>
              (case backward_overlap f D k (- (k - (lhs_size f - rhs_size f))) fwd bwd' of
                 Inl e \<Rightarrow> Inl e
               | Inr True \<Rightarrow>
                   Inr (Found (Middle (2 * D) (lhs_size f - x) (rhs_size f - y)
                          (lhs_size f - c) (rhs_size f - (c - k))))
               | Inr False \<Rightarrow> backward_loop f D (k + 2) fwd bwd')))"
    by (subst backward_loop.simps) simp
qed

text \<open>
  The steps on the views of \<open>ab\<close> and \<open>a\<close> (forward, and backward at depth 0) and of
  \<open>abc\<close> and \<open>a\<close> (backward), from arrays that differ between the two directions: at
  depth 0; on \<open>k = D = 1\<close>; and on the interior diagonal 1 of depth 3, with the larger
  entry at diagonal 2 and with equal entries.
\<close>

theorem candidate_x_rule_in_loops_witness:
  "(let g = \<lparr>lhs_seq = sequence_view_of (Ptr 1 ''ab'') 0 2, rhs_seq = sequence_view_of (Ptr 2 ''a'') 0 1,
             lhs_size = 2, rhs_size = 1, max_len = 3, x_values_len = 4\<rparr>;
        h = \<lparr>lhs_seq = sequence_view_of (Ptr 1 ''abc'') 0 3, rhs_seq = sequence_view_of (Ptr 2 ''a'') 0 1,
             lhs_size = 3, rhs_size = 1, max_len = 4, x_values_len = 4\<rparr>
    in forward_loop g 0 0 [0, 7, 0, 0] [9, 9, 9, 9] = Inr (Exhausted [7, 7, 0, 0])
     \<and> forward_loop g 1 1 [1, 0, 0, 0] [0, 9, 9, 9] = Inr (Found (Middle 1 2 1 2 1))
     \<and> forward_loop g 3 1 [0, 0, 2, 0] [0, 9, 9, 9] = Inr (Found (Middle 5 2 1 2 1))
     \<and> forward_loop g 3 1 [1, 0, 1, 0] [0, 9, 9, 9] = Inr (Found (Middle 5 2 1 2 1))
     \<and> backward_loop g 0 0 [9, 9, 9, 9] [0, 7, 0, 0] = Inr (Exhausted [7, 7, 0, 0])
     \<and> backward_loop h 1 1 [9, 1, 9, 9] [1, 0, 0, 0] = Inr (Found (Middle 2 1 0 1 0))
     \<and> backward_loop h 3 1 [9, 1, 9, 9] [0, 0, 2, 0] = Inr (Found (Middle 6 1 0 1 0))
     \<and> backward_loop h 3 1 [9, 1, 9, 9] [1, 0, 1, 0] = Inr (Found (Middle 6 1 0 1 0)))"
proof -
  let ?g = "\<lparr>lhs_seq = sequence_view_of (Ptr 1 ''ab'') 0 2, rhs_seq = sequence_view_of (Ptr 2 ''a'') 0 1,
             lhs_size = 2, rhs_size = 1, max_len = 3, x_values_len = 4\<rparr>"
  let ?h = "\<lparr>lhs_seq = sequence_view_of (Ptr 1 ''abc'') 0 3, rhs_seq = sequence_view_of (Ptr 2 ''a'') 0 1,
             lhs_size = 3, rhs_size = 1, max_len = 4, x_values_len = 4\<rparr>"
  have f1: "forward_loop ?g 0 0 [0, 7, 0, 0] [9, 9, 9, 9] = Inr (Exhausted [7, 7, 0, 0])"
    by (subst candidate_x_rule_in_loops [where c = 7 and b = 7 and a = 0, THEN conjunct1, THEN mp])
       (simp_all add: eval_defs)
  have f2: "forward_loop ?g 1 1 [1, 0, 0, 0] [0, 9, 9, 9] = Inr (Found (Middle 1 2 1 2 1))"
    by (subst candidate_x_rule_in_loops [where c = 2 and a = 1 and b = 0, THEN conjunct1, THEN mp])
       (simp_all add: eval_defs)
  have f3: "forward_loop ?g 3 1 [0, 0, 2, 0] [0, 9, 9, 9] = Inr (Found (Middle 5 2 1 2 1))"
    by (subst candidate_x_rule_in_loops [where c = 2 and a = 0 and b = 2, THEN conjunct1, THEN mp])
       (simp_all add: eval_defs)
  have f4: "forward_loop ?g 3 1 [1, 0, 1, 0] [0, 9, 9, 9] = Inr (Found (Middle 5 2 1 2 1))"
    by (subst candidate_x_rule_in_loops [where c = 2 and a = 1 and b = 1, THEN conjunct1, THEN mp])
       (simp_all add: eval_defs)
  have b1: "backward_loop ?g 0 0 [9, 9, 9, 9] [0, 7, 0, 0] = Inr (Exhausted [7, 7, 0, 0])"
    by (subst candidate_x_rule_in_loops [where c = 7 and b = 7 and a = 0, THEN conjunct2, THEN mp])
       (simp_all add: eval_defs)
  have b2: "backward_loop ?h 1 1 [9, 1, 9, 9] [1, 0, 0, 0] = Inr (Found (Middle 2 1 0 1 0))"
    by (subst candidate_x_rule_in_loops [where c = 2 and a = 1 and b = 0, THEN conjunct2, THEN mp])
       (simp_all add: eval_defs)
  have b3: "backward_loop ?h 3 1 [9, 1, 9, 9] [0, 0, 2, 0] = Inr (Found (Middle 6 1 0 1 0))"
    by (subst candidate_x_rule_in_loops [where c = 2 and a = 0 and b = 2, THEN conjunct2, THEN mp])
       (simp_all add: eval_defs)
  have b4: "backward_loop ?h 3 1 [9, 1, 9, 9] [1, 0, 1, 0] = Inr (Found (Middle 6 1 0 1 0))"
    by (subst candidate_x_rule_in_loops [where c = 2 and a = 1 and b = 1, THEN conjunct2, THEN mp])
       (simp_all add: eval_defs)
  from f1 f2 f3 f4 b1 b2 b3 b4 show ?thesis
    by (simp add: Let_def)
qed

text \<open>
  At depth 0 the only diagonal is \<open>k = 0\<close>, which is \<open>-D\<close> and \<open>D\<close> at once. The code
  tests \<open>k == -D\<close> first and takes the entry of diagonal 1, which is 0 in the fresh array
  (here of two views of one symbol each); it does not read diagonal -1, and the entry
  of diagonal -1 plus one is not 0 under any reading of the index.
\<close>

theorem candidate_x_depth_zero:
  "choose_x [0, 0, 0, 0] 0 0 4 = Inr 0
   \<and> (case vec_at [0, 0, 0, 0] (cpp_mod (0 - 1) 4) of Inl e \<Rightarrow> Inl e | Inr a \<Rightarrow> Inr (a + 1))
       = Inl VectorOutOfRange"
  by (simp add: choose_x_def vec_at_def cpp_mod_def to_size_t_def)

end
